theory Spec2Isabelle
  imports Main
begin

section \<open>Conventions of the embedding\<close>

text \<open>
  The Go sources of xcw are embedded as HOL functions.

  \<^item> A Go \<open>string\<close> is a \<open>string\<close> (a list of bytes).
  \<^item> A Go \<open>int\<close> (64 bit on every supported platform) is an \<open>int\<close>. The only
    arithmetic the embedded code performs on such values is \<open>x++\<close> on counters that start
    at 0 or 1, so an overflow needs more than \<open>2^63\<close> calls; it is not modelled.
  \<^item> A \<open>time.Time\<close> is an \<open>int\<close>: nanoseconds on one time line whose origin is the
    zero value \<open>time.Time{}\<close>. A \<open>time.Duration\<close> is an \<open>int\<close> (nanoseconds).
  \<^item> There is one clock: the wall clock and the monotonic clock of Go are not told apart.
  \<^item> \<open>time.Now()\<close> is an input: every function that reads the clock takes the instant
    \<open>now\<close> as an argument; the reads of one call see the same instant.
  \<^item> A method with a pointer receiver takes the receiver's state and returns the new one
    next to its result. The mutexes are not modelled: each method is one atomic step.
\<close>

type_synonym time = int
type_synonym duration = int

section \<open>domain: log entries and levels\<close>

text \<open>
  Modelled from the spec: the declaration of \<open>domain.LogEntry\<close> is not among the sources.
  The fields are the ones the sources read (\<open>entry.Message\<close>, \<open>entry.PID\<close>, ...) and the
  tests set (\<open>ProcessImageUUID\<close>); \<open>LogLevel\<close> is a string type whose constants the test
  \<open>TestLogLevelConstants\<close> fixes.
\<close>

type_synonym LogLevel = string

record LogEntry =
  Timestamp :: time
  Level :: LogLevel
  Process :: string
  PID :: int
  ProcessImageUUID :: string
  Subsystem :: string
  Category :: string
  Message :: string

definition LogLevelDebug :: LogLevel where "LogLevelDebug = ''Debug''"
definition LogLevelInfo :: LogLevel where "LogLevelInfo = ''Info''"
definition LogLevelDefault :: LogLevel where "LogLevelDefault = ''Default''"
definition LogLevelError :: LogLevel where "LogLevelError = ''Error''"
definition LogLevelFault :: LogLevel where "LogLevelFault = ''Fault''"

section \<open>strings: the standard library functions the sources call\<close>

definition HasPrefix :: "string \<Rightarrow> string \<Rightarrow> bool" where
  "HasPrefix s p = (length s \<ge> length p \<and> take (length p) s = p)"

definition HasSuffix :: "string \<Rightarrow> string \<Rightarrow> bool" where
  "HasSuffix s p = (length s \<ge> length p \<and> drop (length s - length p) s = p)"

text \<open>\<open>strings.Index\<close>: the index of the first instance of \<open>sub\<close> in \<open>s\<close>, or \<open>-1\<close>.\<close>

fun Index :: "string \<Rightarrow> string \<Rightarrow> int" where
  "Index [] sub = (if sub = [] then 0 else -1)"
| "Index (c # cs) sub =
     (if HasPrefix (c # cs) sub then 0
      else (let i = Index cs sub in if i < 0 then -1 else i + 1))"

definition Contains :: "string \<Rightarrow> string \<Rightarrow> bool" where
  "Contains s sub = (Index s sub \<ge> 0)"

text \<open>
  The white space of \<open>unicode.IsSpace\<close>, as the UTF-8 bytes of each code point:
  U+0009 to U+000D, U+0020, U+0085, U+00A0, U+1680, U+2000 to U+200A, U+2028, U+2029,
  U+202F, U+205F and U+3000.
\<close>

definition spaceRunes :: "string list" where
  "spaceRunes =
     [ [CHR 0x09], [CHR 0x0A], [CHR 0x0B], [CHR 0x0C], [CHR 0x0D], [CHR 0x20],
      [CHR 0xC2, CHR 0x85], [CHR 0xC2, CHR 0xA0], [CHR 0xE1, CHR 0x9A, CHR 0x80],
      [CHR 0xE2, CHR 0x80, CHR 0x80], [CHR 0xE2, CHR 0x80, CHR 0x81],
      [CHR 0xE2, CHR 0x80, CHR 0x82], [CHR 0xE2, CHR 0x80, CHR 0x83],
      [CHR 0xE2, CHR 0x80, CHR 0x84], [CHR 0xE2, CHR 0x80, CHR 0x85],
      [CHR 0xE2, CHR 0x80, CHR 0x86], [CHR 0xE2, CHR 0x80, CHR 0x87],
      [CHR 0xE2, CHR 0x80, CHR 0x88], [CHR 0xE2, CHR 0x80, CHR 0x89],
      [CHR 0xE2, CHR 0x80, CHR 0x8A], [CHR 0xE2, CHR 0x80, CHR 0xA8],
      [CHR 0xE2, CHR 0x80, CHR 0xA9], [CHR 0xE2, CHR 0x80, CHR 0xAF],
      [CHR 0xE2, CHR 0x81, CHR 0x9F], [CHR 0xE3, CHR 0x80, CHR 0x80]]"

text \<open>The number of bytes of the white-space rune \<open>s\<close> starts with (0: none).\<close>

definition leadingSpace :: "string \<Rightarrow> nat" where
  "leadingSpace s = (case find (HasPrefix s) spaceRunes of None \<Rightarrow> 0 | Some w \<Rightarrow> length w)"

definition trailingSpace :: "string \<Rightarrow> nat" where
  "trailingSpace s = (case find (HasSuffix s) spaceRunes of None \<Rightarrow> 0 | Some w \<Rightarrow> length w)"

text \<open>
  \<open>strings.TrimSpace\<close>. \<open>trimLeft k s\<close> drops \<open>k\<close> more bytes of the white-space rune it
  is inside, then every further leading white-space rune.
\<close>

fun trimLeft :: "nat \<Rightarrow> string \<Rightarrow> string" where
  "trimLeft k [] = []"
| "trimLeft (Suc k) (c # cs) = trimLeft k cs"
| "trimLeft 0 (c # cs) =
     (let n = leadingSpace (c # cs) in if n = 0 then c # cs else trimLeft (n - 1) cs)"

fun trimRight :: "nat \<Rightarrow> string \<Rightarrow> string" where
  "trimRight k [] = []"
| "trimRight (Suc k) (c # cs) = trimRight k cs"
| "trimRight 0 (c # cs) =
     (let n = trailingSpace (rev (c # cs)) in if n = 0 then c # cs else trimRight (n - 1) cs)"

definition TrimSpace :: "string \<Rightarrow> string" where
  "TrimSpace s = rev (trimRight 0 (rev (trimLeft 0 s)))"

text \<open>
  \<open>strings.ToLower\<close>, exact as far as the sources use it: they compare its result with
  ASCII words. The code points whose lower case is ASCII are \<open>A\<close> to \<open>Z\<close>, U+0130 (to
  \<open>i\<close>) and U+212A (to \<open>k\<close>); every other byte outside ASCII is left as it is, where Go
  writes some non-ASCII bytes.
\<close>

definition lowerByte :: "char \<Rightarrow> char" where
  "lowerByte c =
     (if (65::nat) \<le> of_char c \<and> of_char c \<le> (90::nat) then char_of (of_char c + (32::nat)) else c)"

fun ToLower :: "string \<Rightarrow> string" where
  "ToLower (a # b # c # cs) =
     (if a = CHR 0xE2 \<and> b = CHR 0x84 \<and> c = CHR 0xAA then CHR ''k'' # ToLower cs
      else if a = CHR 0xC4 \<and> b = CHR 0xB0 then CHR ''i'' # ToLower (c # cs)
      else lowerByte a # ToLower (b # c # cs))"
| "ToLower [a, b] =
     (if a = CHR 0xC4 \<and> b = CHR 0xB0 then [CHR ''i''] else [lowerByte a, lowerByte b])"
| "ToLower [a] = [lowerByte a]"
| "ToLower [] = []"

text \<open>\<open>strconv.Itoa\<close>: the decimal digits of an integer.\<close>

fun digits :: "nat \<Rightarrow> string" where
  "digits n = (if n < 10 then [char_of (48 + n)] else digits (n div 10) @ [char_of (48 + n mod 10)])"

definition Itoa :: "int \<Rightarrow> string" where
  "Itoa i = (if i < 0 then CHR ''-'' # digits (nat (- i)) else digits (nat i))"

section \<open>filter: the dedupe filter\<close>

record dedupeEntry =
  count :: int
  firstSeen :: time
  lastSeen :: time

record DedupeFilter =
  window :: duration
  seen :: "string \<rightharpoonup> dedupeEntry"
  lastMessage :: string
  lastEmitTime :: time

record DedupeResult =
  ShouldEmit :: bool
  Count :: int
  FirstSeen :: time
  LastSeen :: time

definition NewDedupeFilter :: "duration \<Rightarrow> DedupeFilter" where
  "NewDedupeFilter w = \<lparr>window = w, seen = Map.empty, lastMessage = [], lastEmitTime = 0\<rparr>"

text \<open>\<open>cleanOldEntries\<close>: delete every key whose \<open>lastSeen\<close> is before \<open>now - window\<close>.\<close>

definition cleanOldEntries :: "DedupeFilter \<Rightarrow> time \<Rightarrow> DedupeFilter" where
  "cleanOldEntries f now =
     (let cutoff = now - window f
      in f\<lparr>seen := (\<lambda>key. case seen f key of
                               None \<Rightarrow> None
                             | Some entry \<Rightarrow> if lastSeen entry < cutoff then None else Some entry)\<rparr>)"

text \<open>The tail of \<open>Check\<close>: a new message, or one that differs from the last emitted.\<close>

definition emitNew :: "DedupeFilter \<Rightarrow> string \<Rightarrow> time \<Rightarrow> DedupeResult \<times> DedupeFilter" where
  "emitNew f key now =
     (\<lparr>ShouldEmit = True, Count = 1, FirstSeen = now, LastSeen = now\<rparr>,
      f\<lparr>seen := (seen f)(key \<mapsto> \<lparr>count = 1, firstSeen = now, lastSeen = now\<rparr>),
        lastMessage := key,
        lastEmitTime := now\<rparr>)"

definition suppressed :: "dedupeEntry \<Rightarrow> DedupeResult" where
  "suppressed existing =
     \<lparr>ShouldEmit = False, Count = count existing,
      FirstSeen = firstSeen existing, LastSeen = lastSeen existing\<rparr>"

text \<open>
  \<open>Check\<close>. The map holds pointers: \<open>existing.count++\<close> and \<open>existing.lastSeen = now\<close>
  change the stored entry, also on the path that then overwrites it.
\<close>

definition Check :: "DedupeFilter \<Rightarrow> LogEntry \<Rightarrow> time \<Rightarrow> DedupeResult \<times> DedupeFilter" where
  "Check f0 entry now =
     (let key = Message entry;
          f = (if window f0 > 0 then cleanOldEntries f0 now else f0)
      in case seen f key of
           Some existing0 \<Rightarrow>
             (let existing = existing0\<lparr>count := count existing0 + 1, lastSeen := now\<rparr>;
                  f' = f\<lparr>seen := (seen f)(key \<mapsto> existing)\<rparr>
              in if window f' > 0 then (suppressed existing, f')
                 else if lastMessage f' = key then (suppressed existing, f')
                 else emitNew f' key now)
         | None \<Rightarrow> emitNew f key now)"

definition GetPendingDuplicates :: "DedupeFilter \<Rightarrow> (string \<rightharpoonup> dedupeEntry)" where
  "GetPendingDuplicates f =
     (\<lambda>key. case seen f key of
              None \<Rightarrow> None
            | Some entry \<Rightarrow> if count entry > 1 then Some entry else None)"

definition Reset :: "DedupeFilter \<Rightarrow> DedupeFilter" where
  "Reset f = f\<lparr>seen := Map.empty, lastMessage := []\<rparr>"

text \<open>
  A history of the filter: the calls of \<open>Check\<close> made so far, each with the instant it
  read from the clock. \<open>checks\<close> returns the results in order and the final state.
\<close>

fun checks :: "DedupeFilter \<Rightarrow> (LogEntry \<times> time) list \<Rightarrow> DedupeResult list \<times> DedupeFilter" where
  "checks f [] = ([], f)"
| "checks f ((entry, now) # rest) =
     (let (r, f') = Check f entry now; (rs, f'') = checks f' rest in (r # rs, f''))"

text \<open>Every stored entry has been counted at least once.\<close>

definition counts_positive :: "DedupeFilter \<Rightarrow> bool" where
  "counts_positive f = (\<forall>key entry. seen f key = Some entry \<longrightarrow> 1 \<le> count entry)"


text \<open>The calls a filter has seen since \<open>NewDedupeFilter\<close>.\<close>

datatype dedupe_call = DoCheck LogEntry time | DoReset

fun apply_call :: "DedupeFilter \<Rightarrow> dedupe_call \<Rightarrow> DedupeFilter" where
  "apply_call f (DoCheck entry now) = snd (Check f entry now)"
| "apply_call f DoReset = Reset f"

definition after_calls :: "duration \<Rightarrow> dedupe_call list \<Rightarrow> DedupeFilter" where
  "after_calls w calls = foldl apply_call (NewDedupeFilter w) calls"

section \<open>domain: session events\<close>

text \<open>
  \<open>Timestamp\<close> of a \<open>SessionStart\<close> is \<open>time.Now().UTC().Format(time.RFC3339)\<close>; the
  embedding keeps the instant itself. The fields of the two event records carry a prefix,
  since \<open>Session\<close> and \<open>PID\<close> name fields of both (and \<open>PID\<close> one of \<open>LogEntry\<close>).
\<close>

record SessionSummary =
  TotalLogs :: int
  Errors :: int
  Faults :: int
  DurationSeconds :: int

record SessionStart =
  start_Type :: string
  start_SchemaVersion :: int
  start_Alert :: string
  start_Session :: int
  start_PID :: int
  start_PreviousPID :: int
  start_App :: string
  start_Simulator :: string
  start_UDID :: string
  start_Timestamp :: time

record SessionEnd =
  end_Type :: string
  end_SchemaVersion :: int
  end_Session :: int
  end_PID :: int
  end_Summary :: SessionSummary

definition NewSessionStart ::
  "int \<Rightarrow> int \<Rightarrow> int \<Rightarrow> string \<Rightarrow> string \<Rightarrow> string \<Rightarrow> time \<Rightarrow> SessionStart" where
  "NewSessionStart session pid previousPID app_id simulator_name udid_str now =
     (let s = \<lparr>start_Type = ''session_start'', start_SchemaVersion = 1, start_Alert = [],
               start_Session = session, start_PID = pid, start_PreviousPID = 0,
               start_App = app_id, start_Simulator = simulator_name, start_UDID = udid_str,
               start_Timestamp = now\<rparr>
      in if previousPID > 0
         then s\<lparr>start_Alert := ''APP_RELAUNCHED'', start_PreviousPID := previousPID\<rparr>
         else s)"

definition NewSessionEnd :: "int \<Rightarrow> int \<Rightarrow> SessionSummary \<Rightarrow> SessionEnd" where
  "NewSessionEnd session pid summary =
     \<lparr>end_Type = ''session_end'', end_SchemaVersion = 1, end_Session = session,
      end_PID = pid, end_Summary = summary\<rparr>"

section \<open>session: the tracker\<close>

record Tracker =
  currentSession :: int
  currentPID :: int
  sessionStart :: time
  logCount :: int
  errorCount :: int
  faultCount :: int
  app :: string
  simulator :: string
  udid :: string
  initialized :: bool

record SessionChange =
  EndSession :: "SessionEnd option"
  StartSession :: "SessionStart option"

definition NewTracker :: "string \<Rightarrow> string \<Rightarrow> string \<Rightarrow> Tracker" where
  "NewTracker app_id simulator_name udid_str =
     \<lparr>currentSession = 0, currentPID = 0, sessionStart = 0, logCount = 0, errorCount = 0,
      faultCount = 0, app = app_id, simulator = simulator_name, udid = udid_str,
      initialized = False\<rparr>"

definition matchesApp :: "Tracker \<Rightarrow> LogEntry \<Rightarrow> bool" where
  "matchesApp t entry =
     (length (Subsystem entry) \<ge> length (app t) \<and>
      take (length (app t)) (Subsystem entry) = app t)"

definition updateCounts :: "Tracker \<Rightarrow> LogEntry \<Rightarrow> Tracker" where
  "updateCounts t entry =
     (if Level entry = LogLevelError then t\<lparr>errorCount := errorCount t + 1\<rparr>
      else if Level entry = LogLevelFault then t\<lparr>faultCount := faultCount t + 1\<rparr>
      else t)"

text \<open>
  \<open>int(d.Seconds())\<close>: the whole seconds of a duration, truncated towards zero. Go goes
  through \<open>float64(sec) + float64(nsec)/1e9\<close>, which for a duration of several months
  can round a fraction just below one up to the next second; no statement below depends
  on the value of \<open>DurationSeconds\<close>.
\<close>

definition wholeSeconds :: "duration \<Rightarrow> int" where
  "wholeSeconds d = (if 0 \<le> d then d div 1000000000 else - ((- d) div 1000000000))"

definition CheckEntry :: "Tracker \<Rightarrow> LogEntry \<Rightarrow> time \<Rightarrow> SessionChange option \<times> Tracker" where
  "CheckEntry t entry now =
     (if Subsystem entry \<noteq> app t \<and> \<not> matchesApp t entry then
        (if initialized t
         then (None, updateCounts (t\<lparr>logCount := logCount t + 1\<rparr>) entry)
         else (None, t))
      else
        (let pid = PID entry in
         if \<not> initialized t then
           (let t' = updateCounts
                       (t\<lparr>initialized := True, currentSession := 1, currentPID := pid,
                          sessionStart := now, logCount := 1\<rparr>) entry
            in (Some \<lparr>EndSession = None,
                      StartSession = Some (NewSessionStart (currentSession t') pid 0
                                             (app t') (simulator t') (udid t') now)\<rparr>,
                t'))
         else if pid \<noteq> currentPID t \<and> pid > 0 then
           (let previousPID = currentPID t;
                previousSession = currentSession t;
                summary = \<lparr>TotalLogs = logCount t, Errors = errorCount t,
                           Faults = faultCount t,
                           DurationSeconds = wholeSeconds (now - sessionStart t)\<rparr>;
                t' = updateCounts
                       (t\<lparr>currentSession := currentSession t + 1, currentPID := pid,
                          sessionStart := now, logCount := 1, errorCount := 0,
                          faultCount := 0\<rparr>) entry
            in (Some \<lparr>EndSession = Some (NewSessionEnd previousSession previousPID summary),
                      StartSession = Some (NewSessionStart (currentSession t') pid previousPID
                                             (app t') (simulator t') (udid t') now)\<rparr>,
                t'))
         else (None, updateCounts (t\<lparr>logCount := logCount t + 1\<rparr>) entry)))"


section \<open>domain: parsing and ordering levels\<close>

text \<open>
  Modelled from the spec: \<open>ParseLogLevel\<close> and \<open>LogLevel.Priority\<close> are not among the
  sources (their tests are: \<open>TestParseLogLevel\<close>, \<open>TestLogLevelPriority\<close>). The spec:
  "a severity-ordering helper (Debug=0 ... Fault=4) and a lenient parser mapping textual
  names (case-insensitive) to the enum, with an unknown name mapped to Default". The test
  gives an unknown level the priority of Default.
\<close>

definition Priority :: "LogLevel \<Rightarrow> int" where
  "Priority l =
     (if l = LogLevelDebug then 0
      else if l = LogLevelInfo then 1
      else if l = LogLevelDefault then 2
      else if l = LogLevelError then 3
      else if l = LogLevelFault then 4
      else 2)"

definition ParseLogLevel :: "string \<Rightarrow> LogLevel" where
  "ParseLogLevel s =
     (let l = ToLower s in
      if l = ''debug'' then LogLevelDebug
      else if l = ''info'' then LogLevelInfo
      else if l = ''default'' then LogLevelDefault
      else if l = ''error'' then LogLevelError
      else if l = ''fault'' then LogLevelFault
      else LogLevelDefault)"

section \<open>filter: WHERE clauses\<close>

text \<open>
  A compiled \<open>*regexp.Regexp\<close> is its source text (\<open>re.String()\<close>) and the predicate
  \<open>re.MatchString\<close>. \<open>regexp.Compile\<close> is a parameter of the functions that call it: it
  returns the compiled expression, or nothing where Go returns an error.
\<close>

record Regexp =
  String :: string
  MatchString :: "string \<Rightarrow> bool"

record WhereClause =
  Field :: string
  Operator :: string
  Value :: string
  regex :: "Regexp option"

datatype where_error = InvalidWhereClause string | InvalidRegex string | NoValidOperator string

definition operators :: "string list" where
  "operators = [''!~'', ''>='', ''<='', ''!='', ''~'', ''='', ''^'', ''$'']"

text \<open>The loop of \<open>ParseWhereClause\<close> over the operators still to try.\<close>

fun tryOperators :: "(string \<Rightarrow> Regexp option) \<Rightarrow> string \<Rightarrow> string list \<Rightarrow> where_error + WhereClause" where
  "tryOperators compile clause [] = Inl (NoValidOperator clause)"
| "tryOperators compile clause (op # ops) =
     (let idx = Index clause op in
      if idx > 0 then
        (let field = TrimSpace (take (nat idx) clause);
             val = TrimSpace (drop (nat idx + length op) clause)
         in if field = [] \<or> val = [] then Inl (InvalidWhereClause clause)
            else if op = ''~'' \<or> op = ''!~'' then
              (case compile val of
                 None \<Rightarrow> Inl (InvalidRegex clause)
               | Some re \<Rightarrow> Inr \<lparr>Field = field, Operator = op, Value = val, regex = Some re\<rparr>)
            else Inr \<lparr>Field = field, Operator = op, Value = val, regex = None\<rparr>)
      else tryOperators compile clause ops)"

definition ParseWhereClause :: "(string \<Rightarrow> Regexp option) \<Rightarrow> string \<Rightarrow> where_error + WhereClause" where
  "ParseWhereClause compile clause = tryOperators compile clause operators"

definition getFieldValue :: "WhereClause \<Rightarrow> LogEntry \<Rightarrow> string" where
  "getFieldValue wc entry =
     (let f = ToLower (Field wc) in
      if f = ''level'' then Level entry
      else if f = ''subsystem'' then Subsystem entry
      else if f = ''category'' then Category entry
      else if f = ''process'' then Process entry
      else if f = ''message'' then Message entry
      else if f = ''pid'' then Itoa (PID entry)
      else [])"

definition compareLevel :: "WhereClause \<Rightarrow> LogEntry \<Rightarrow> bool \<Rightarrow> bool" where
  "compareLevel wc entry greaterOrEqual =
     (if ToLower (Field wc) \<noteq> ''level'' then False
      else
        (let targetLevel = ParseLogLevel (Value wc);
             entryPriority = Priority (Level entry);
             targetPriority = Priority targetLevel
         in if greaterOrEqual then entryPriority \<ge> targetPriority
            else entryPriority \<le> targetPriority))"

definition Match :: "WhereClause \<Rightarrow> LogEntry \<Rightarrow> bool" where
  "Match wc entry =
     (let fieldValue = getFieldValue wc entry in
      if Operator wc = ''='' then fieldValue = Value wc
      else if Operator wc = ''!='' then fieldValue \<noteq> Value wc
      else if Operator wc = ''~'' then
        (case regex wc of Some re \<Rightarrow> MatchString re fieldValue
                        | None \<Rightarrow> Contains fieldValue (Value wc))
      else if Operator wc = ''!~'' then
        (case regex wc of Some re \<Rightarrow> \<not> MatchString re fieldValue
                        | None \<Rightarrow> \<not> Contains fieldValue (Value wc))
      else if Operator wc = ''^'' then HasPrefix fieldValue (Value wc)
      else if Operator wc = ''$'' then HasSuffix fieldValue (Value wc)
      else if Operator wc = ''>='' then compareLevel wc entry True
      else if Operator wc = ''<='' then compareLevel wc entry False
      else False)"


section \<open>cli: what a command writes, and the globals\<close>

text \<open>
  The effects of a command are the list of what it wrote, in order. \<open>WriteEntry\<close> is the
  call \<open>writer.Write(&entry)\<close> on the output writer and \<open>WriteError\<close> the call
  \<open>NewNDJSONWriter(globals.Stdout).WriteError(code, message, hint...)\<close>.

  Modelled from the spec: the NDJSON writer is not among the sources. By the spec
  \<open>WriteError\<close> writes the event \<open>error\<close> with its \<open>code\<close>, \<open>message\<close> and \<open>hint\<close> on one
  line; the embedding keeps the call and its arguments.
\<close>

datatype written =
    ToStdout string
  | ToStderr string
  | ToWriter string
  | WriteEntry LogEntry
  | WriteError string string "string list"

text \<open>\<open>Globals\<close>: the fields the embedded functions read. A \<open>*Globals\<close> may be nil.\<close>

record Globals =
  Format :: string
  Quiet :: bool

definition newline :: string where
  "newline = [CHR 0x0A]"

section \<open>cli: flag validation and the exit code\<close>

definition outputErrorCommon ::
  "Globals option \<Rightarrow> string \<Rightarrow> string \<Rightarrow> string list \<Rightarrow> written list \<times> string" where
  "outputErrorCommon globals code message hint =
     ((case globals of
         None \<Rightarrow> []
       | Some g \<Rightarrow>
           if Format g = ''ndjson'' then [WriteError code message hint]
           else [ToStderr (''Error ['' @ code @ '']: '' @ message)] @
                (if length hint > 0 \<and> hd hint \<noteq> [] then [ToStderr ('' (hint: '' @ hd hint @ '')'')]
                 else []) @
                [ToStderr newline]),
      message)"

text \<open>\<open>validateFlags\<close>: what it writes, and the error it returns (\<open>None\<close> for nil).\<close>

definition validateFlags :: "Globals option \<Rightarrow> bool \<Rightarrow> bool \<Rightarrow> written list \<times> string option" where
  "validateFlags globals dryRunJSON tmux =
     (if dryRunJSON \<and> tmux then
        map_prod id Some (outputErrorCommon globals ''INVALID_FLAGS''
          ''--dry-run-json cannot be combined with --tmux''
          [''drop --tmux or remove --dry-run-json''])
      else if dryRunJSON \<and> globals \<noteq> None \<and> Format (the globals) \<noteq> ''ndjson'' then
        map_prod id Some (outputErrorCommon globals ''INVALID_FLAGS''
          ''--dry-run-json requires ndjson output''
          [''add --format ndjson or remove --dry-run-json''])
      else if globals \<noteq> None \<and> Format (the globals) = ''text'' \<and> Quiet (the globals) then
        map_prod id Some (outputErrorCommon globals ''INVALID_FLAGS''
          ''--quiet is only supported with ndjson output''
          [''switch to --format ndjson or drop --quiet''])
      else ([], None))"

text \<open>
  The end of \<open>main\<close>: \<open>err = ctx.Run(globals); if err != nil { os.Exit(1) }\<close>, and a
  return from \<open>main\<close> is the exit code 0. The argument is the error the command's \<open>Run\<close>
  returned.
\<close>

definition mainExitCode :: "string option \<Rightarrow> int" where
  "mainExitCode err = (case err of Some e \<Rightarrow> 1 | None \<Rightarrow> 0)"

text \<open>The invalid combinations, in the words of the claim.\<close>

definition invalidCombination :: "Globals \<Rightarrow> bool \<Rightarrow> bool \<Rightarrow> bool" where
  "invalidCombination g dryRunJSON tmux =
     ((dryRunJSON \<and> tmux) \<or> (dryRunJSON \<and> Format g \<noteq> ''ndjson'') \<or> (Quiet g \<and> Format g = ''text''))"


section \<open>cli: the watch command\<close>

text \<open>
  \<open>Time.Sub\<close>: the difference of two instants as a \<open>Duration\<close>, an \<open>int64\<close> of
  nanoseconds: "if the result exceeds the maximum (or minimum) value that can be stored
  in a Duration, the maximum (or minimum) duration will be returned".
\<close>

definition maxDuration :: duration where
  "maxDuration = 2 ^ 63 - 1"

definition minDuration :: duration where
  "minDuration = - (2 ^ 63)"

definition Sub :: "time \<Rightarrow> time \<Rightarrow> duration" where
  "Sub t u =
     (if t - u > maxDuration then maxDuration
      else if t - u < minDuration then minDuration
      else t - u)"

text \<open>The fields of \<open>WatchCmd\<close> that the loop of \<open>Run\<close> reads.\<close>

record WatchCmd =
  OnError :: string
  OnFault :: string

record triggerConfig =
  pattern :: Regexp
  command :: string

text \<open>
  The three variables of \<open>Run\<close> that hold the last trigger times. A key that
  \<open>lastPatternTriggers\<close> does not hold reads as the zero \<open>time.Time\<close>.
\<close>

record lastTriggers =
  lastErrorTrigger :: time
  lastFaultTrigger :: time
  lastPatternTriggers :: "nat \<rightharpoonup> time"

definition patternTime :: "(nat \<rightharpoonup> time) \<Rightarrow> nat \<Rightarrow> time" where
  "patternTime m i = (case m i of None \<Rightarrow> 0 | Some t \<Rightarrow> t)"

text \<open>
  A call \<open>c.runTrigger(globals, triggerType, command, &entry)\<close> that the loop makes.
  \<open>call_id\<close> says which trigger made it; it is not an argument of the call.
\<close>

datatype trigger_id = ErrorTrigger | FaultTrigger | PatternTrigger nat

record triggerCall =
  call_id :: trigger_id
  call_type :: string
  call_command :: string

text \<open>The loop over \<open>triggers\<close>, from index \<open>i\<close> on.\<close>

fun checkPatterns ::
  "duration \<Rightarrow> triggerConfig list \<Rightarrow> nat \<Rightarrow> LogEntry \<Rightarrow> time \<Rightarrow> lastTriggers
     \<Rightarrow> lastTriggers \<times> triggerCall list" where
  "checkPatterns cooldown [] i entry now lt = (lt, [])"
| "checkPatterns cooldown (t # ts) i entry now lt =
     (if MatchString (pattern t) (Message entry) \<and>
         Sub now (patternTime (lastPatternTriggers lt) i) \<ge> cooldown
      then
        (let call = \<lparr>call_id = PatternTrigger i,
                      call_type = ''pattern:'' @ String (pattern t),
                      call_command = command t\<rparr>;
             (lt', calls) = checkPatterns cooldown ts (Suc i) entry now
                              (lt\<lparr>lastPatternTriggers := (lastPatternTriggers lt)(i \<mapsto> now)\<rparr>)
         in (lt', call # calls))
      else checkPatterns cooldown ts (Suc i) entry now lt)"

text \<open>
  The three checks of the loop body, after \<open>now := time.Now()\<close>: the new last trigger
  times and the calls of \<open>runTrigger\<close>, in order.
\<close>

definition checkTriggers ::
  "WatchCmd \<Rightarrow> duration \<Rightarrow> triggerConfig list \<Rightarrow> LogEntry \<Rightarrow> time \<Rightarrow> lastTriggers
     \<Rightarrow> lastTriggers \<times> triggerCall list" where
  "checkTriggers c cooldown triggers entry now lt0 =
     (let (lt1, calls1) =
            (if OnError c \<noteq> [] \<and> Level entry = LogLevelError \<and>
                Sub now (lastErrorTrigger lt0) \<ge> cooldown
             then (lt0\<lparr>lastErrorTrigger := now\<rparr>,
                   [\<lparr>call_id = ErrorTrigger, call_type = ''error'', call_command = OnError c\<rparr>])
             else (lt0, []));
          (lt2, calls2) =
            (if OnFault c \<noteq> [] \<and> Level entry = LogLevelFault \<and>
                Sub now (lastFaultTrigger lt1) \<ge> cooldown
             then (lt1\<lparr>lastFaultTrigger := now\<rparr>,
                   [\<lparr>call_id = FaultTrigger, call_type = ''fault'', call_command = OnFault c\<rparr>])
             else (lt1, []));
          (lt3, calls3) = checkPatterns cooldown triggers 0 entry now lt2
      in (lt3, calls1 @ calls2 @ calls3))"

text \<open>Whether an entry meets the condition of a trigger, and the trigger's own clock.\<close>

fun matchesTrigger :: "WatchCmd \<Rightarrow> triggerConfig list \<Rightarrow> trigger_id \<Rightarrow> LogEntry \<Rightarrow> bool" where
  "matchesTrigger c triggers ErrorTrigger entry = (OnError c \<noteq> [] \<and> Level entry = LogLevelError)"
| "matchesTrigger c triggers FaultTrigger entry = (OnFault c \<noteq> [] \<and> Level entry = LogLevelFault)"
| "matchesTrigger c triggers (PatternTrigger i) entry =
     (i < length triggers \<and> MatchString (pattern (triggers ! i)) (Message entry))"

fun lastFire :: "lastTriggers \<Rightarrow> trigger_id \<Rightarrow> time" where
  "lastFire lt ErrorTrigger = lastErrorTrigger lt"
| "lastFire lt FaultTrigger = lastFaultTrigger lt"
| "lastFire lt (PatternTrigger i) = patternTime (lastPatternTriggers lt) i"

text \<open>
  Every trigger of a configuration in the order in which the loop checks them, the type
  and the command that the loop passes to \<open>runTrigger\<close> for each, and, in the words of
  the spec, the triggers that fire on an entry: the ones whose condition the entry meets
  and whose last fire is at least the cooldown before \<open>now\<close>.
\<close>

definition allTriggers :: "triggerConfig list \<Rightarrow> trigger_id list" where
  "allTriggers triggers = ErrorTrigger # FaultTrigger # map PatternTrigger [0..<length triggers]"

fun triggerTypeOf :: "triggerConfig list \<Rightarrow> trigger_id \<Rightarrow> string" where
  "triggerTypeOf triggers ErrorTrigger = ''error''"
| "triggerTypeOf triggers FaultTrigger = ''fault''"
| "triggerTypeOf triggers (PatternTrigger i) = ''pattern:'' @ String (pattern (triggers ! i))"

fun triggerCommandOf :: "WatchCmd \<Rightarrow> triggerConfig list \<Rightarrow> trigger_id \<Rightarrow> string" where
  "triggerCommandOf c triggers ErrorTrigger = OnError c"
| "triggerCommandOf c triggers FaultTrigger = OnFault c"
| "triggerCommandOf c triggers (PatternTrigger i) = command (triggers ! i)"

definition firedTriggers ::
  "WatchCmd \<Rightarrow> duration \<Rightarrow> triggerConfig list \<Rightarrow> lastTriggers \<Rightarrow> LogEntry \<Rightarrow> time \<Rightarrow> trigger_id list" where
  "firedTriggers c cooldown triggers lt entry now =
     filter (\<lambda>tid. matchesTrigger c triggers tid entry \<and> cooldown \<le> now - lastFire lt tid)
       (allTriggers triggers)"

text \<open>
  The loop over a sequence of entries, each with the instant at which it is observed:
  the calls of \<open>runTrigger\<close> made for each entry, and the last trigger times at the end.
\<close>

fun checkEntries ::
  "WatchCmd \<Rightarrow> duration \<Rightarrow> triggerConfig list \<Rightarrow> lastTriggers \<Rightarrow> (LogEntry \<times> time) list
     \<Rightarrow> triggerCall list list \<times> lastTriggers" where
  "checkEntries c cooldown triggers lt [] = ([], lt)"
| "checkEntries c cooldown triggers lt ((entry, now) # rest) =
     (let (lt', calls) = checkTriggers c cooldown triggers entry now lt;
          (more, lt'') = checkEntries c cooldown triggers lt' rest
      in (calls # more, lt''))"

text \<open>
  In the words of the spec: given a cooldown and the instants of a sequence of matching
  events, a trigger fires on an instant exactly when the instant minus the last fire is
  at least the cooldown; a fire becomes the last fire.
\<close>

fun firesSpec :: "duration \<Rightarrow> time \<Rightarrow> time list \<Rightarrow> bool list" where
  "firesSpec cooldown last_fire [] = []"
| "firesSpec cooldown last_fire (t # ts) =
     (if t - last_fire \<ge> cooldown then True # firesSpec cooldown t ts
      else False # firesSpec cooldown last_fire ts)"

text \<open>\<open>escapeJSON\<close>: five calls of \<open>strings.ReplaceAll\<close>, each replacing one byte.\<close>

definition replaceByte :: "char \<Rightarrow> string \<Rightarrow> string \<Rightarrow> string" where
  "replaceByte old new s = concat (map (\<lambda>c. if c = old then new else [c]) s)"

definition escapeJSON :: "string \<Rightarrow> string" where
  "escapeJSON s0 =
     (let s1 = replaceByte (CHR 0x5C) [CHR 0x5C, CHR 0x5C] s0;
          s2 = replaceByte (CHR 0x22) [CHR 0x5C, CHR 0x22] s1;
          s3 = replaceByte (CHR 0x0A) [CHR 0x5C, CHR ''n''] s2;
          s4 = replaceByte (CHR 0x0D) [CHR 0x5C, CHR ''r''] s3;
          s5 = replaceByte (CHR 0x09) [CHR 0x5C, CHR ''t''] s4
      in s5)"

text \<open>
  What \<open>runTrigger\<close> starts: \<open>exec.Command("sh", "-c", command)\<close>, whose environment adds
  \<open>XCW_TRIGGER\<close> (the trigger type) and \<open>XCW_LEVEL\<close>, \<open>XCW_MESSAGE\<close>, \<open>XCW_SUBSYSTEM\<close>,
  \<open>XCW_PROCESS\<close> and \<open>XCW_TIMESTAMP\<close> (from the entry), run by \<open>cmd.Run()\<close> in a new
  goroutine.
\<close>

record triggerRun =
  run_command :: string
  run_trigger :: string
  run_entry :: LogEntry

definition triggerLine :: "string \<Rightarrow> string \<Rightarrow> string \<Rightarrow> string" where
  "triggerLine triggerType cmd message =
     ''{\"type\":\"trigger\",\"trigger\":\"'' @ triggerType @ ''\",\"command\":\"'' @ cmd @
     ''\",\"message\":\"'' @ escapeJSON message @ ''\"}'' @ newline"

definition runTrigger :: "Globals \<Rightarrow> string \<Rightarrow> string \<Rightarrow> LogEntry \<Rightarrow> written list \<times> triggerRun" where
  "runTrigger globals triggerType cmd entry =
     ((if Format globals = ''ndjson'' then [ToStdout (triggerLine triggerType cmd (Message entry))]
       else if \<not> Quiet globals
         then [ToStderr (''[TRIGGER:'' @ triggerType @ ''] Running: '' @ cmd @ newline)]
       else []),
      \<lparr>run_command = cmd, run_trigger = triggerType, run_entry = entry\<rparr>)"

text \<open>What the goroutine writes when \<open>cmd.Run()\<close> returns the error \<open>err\<close>.\<close>

definition triggerFailed :: "Globals \<Rightarrow> string \<Rightarrow> string \<Rightarrow> written list" where
  "triggerFailed globals cmd err =
     (if Format globals = ''ndjson''
      then [ToStdout (''{\"type\":\"trigger_error\",\"command\":\"'' @ cmd @ ''\",\"error\":\"'' @
                      escapeJSON err @ ''\"}'' @ newline)]
      else if \<not> Quiet globals
        then [ToStderr (''[TRIGGER ERROR] '' @ cmd @ '': '' @ err @ newline)]
      else [])"

text \<open>
  The state of the loop of \<open>Run\<close>: the last trigger times, the commands that were started
  and whose \<open>cmd.Run()\<close> has not returned yet, and what was written so far.
\<close>

record watchState =
  times :: lastTriggers
  running :: "triggerRun list"
  wrote :: "written list"

definition watchStart :: watchState where
  "watchStart =
     \<lparr>times = \<lparr>lastErrorTrigger = 0, lastFaultTrigger = 0, lastPatternTriggers = Map.empty\<rparr>,
      running = [], wrote = []\<rparr>"

text \<open>
  What the loop and its goroutines react to: an entry on \<open>streamer.Logs()\<close> (with the
  error of \<open>writer.Write\<close>, if any, and the instant \<open>time.Now()\<close> returns), the return of
  \<open>cmd.Run()\<close> in the goroutine of the \<open>i\<close>-th running command (with its error, if any),
  an error on \<open>streamer.Errors()\<close>, and \<open>ctx.Done()\<close>.
\<close>

datatype watchEvent =
    LogArrives LogEntry "string option" time
  | RunReturns nat "string option"
  | StreamError string
  | Cancelled

definition startCall :: "Globals \<Rightarrow> LogEntry \<Rightarrow> watchState \<Rightarrow> triggerCall \<Rightarrow> watchState" where
  "startCall globals entry s call =
     (let (w, r) = runTrigger globals (call_type call) (call_command call) entry
      in s\<lparr>running := running s @ [r], wrote := wrote s @ w\<rparr>)"

text \<open>
  One step. \<open>Inl err\<close>: \<open>Run\<close> returned \<open>err\<close> (\<open>None\<close> is nil); \<open>Inr s\<close>: the loop goes on.
\<close>

fun watchStep ::
  "WatchCmd \<Rightarrow> Globals \<Rightarrow> duration \<Rightarrow> triggerConfig list \<Rightarrow> watchState \<Rightarrow> watchEvent
     \<Rightarrow> string option + watchState" where
  "watchStep c globals cooldown triggers s (LogArrives entry write_err now) =
     (case write_err of
        Some err \<Rightarrow> Inl (Some err)
      | None \<Rightarrow>
        (let (lt, calls) = checkTriggers c cooldown triggers entry now (times s)
         in Inr (foldl (startCall globals entry) (s\<lparr>wrote := wrote s @ [WriteEntry entry]\<rparr>) calls
                   \<lparr>times := lt\<rparr>)))"
| "watchStep c globals cooldown triggers s (RunReturns i err) =
     (if i < length (running s) then
        Inr (s\<lparr>running := take i (running s) @ drop (Suc i) (running s),
               wrote := wrote s @
                 (case err of None \<Rightarrow> []
                            | Some e \<Rightarrow> triggerFailed globals (run_command (running s ! i)) e)\<rparr>)
      else Inr s)"
| "watchStep c globals cooldown triggers s (StreamError msg) =
     (if \<not> Quiet globals then
        Inr (s\<lparr>wrote := wrote s @
               [if Format globals = ''ndjson''
                then ToWriter (''{\"type\":\"warning\",\"message\":\"'' @ msg @ ''\"}'' @ newline)
                else ToStderr (''Warning: '' @ msg @ newline)]\<rparr>)
      else Inr s)"
| "watchStep c globals cooldown triggers s Cancelled = Inl None"

fun watchSteps ::
  "WatchCmd \<Rightarrow> Globals \<Rightarrow> duration \<Rightarrow> triggerConfig list \<Rightarrow> watchState \<Rightarrow> watchEvent list
     \<Rightarrow> string option + watchState" where
  "watchSteps c globals cooldown triggers s [] = Inr s"
| "watchSteps c globals cooldown triggers s (ev # evs) =
     (case watchStep c globals cooldown triggers s ev of
        Inl err \<Rightarrow> Inl err
      | Inr s' \<Rightarrow> watchSteps c globals cooldown triggers s' evs)"


section \<open>path/filepath and os\<close>

text \<open>
  \<open>filepath.Clean\<close>, \<open>Join\<close> and \<open>Dir\<close> for the separator \<open>/\<close> (the tool runs on macOS).
  \<open>Clean\<close> works on the elements between the separators: empty elements and \<open>.\<close> are
  dropped, \<open>..\<close> removes the element before it (at the start of a rooted path it is
  dropped, at the start of a relative one it is kept), and the empty result is \<open>.\<close>.
\<close>

fun splitPath :: "string \<Rightarrow> string list" where
  "splitPath [] = [[]]"
| "splitPath (c # cs) =
     (if c = CHR ''/'' then [] # splitPath cs
      else (case splitPath cs of [] \<Rightarrow> [[c]] | e # es \<Rightarrow> (c # e) # es))"

fun joinPath :: "string list \<Rightarrow> string" where
  "joinPath [] = []"
| "joinPath [e] = e"
| "joinPath (e # es) = e @ ''/'' @ joinPath es"

text \<open>The elements kept so far, last first, and the next element.\<close>

definition cleanStep :: "bool \<Rightarrow> string list \<Rightarrow> string \<Rightarrow> string list" where
  "cleanStep rooted kept e =
     (if e = [] \<or> e = ''.'' then kept
      else if e = ''..'' then
        (case kept of
           [] \<Rightarrow> if rooted then [] else [''..'']
         | k # ks \<Rightarrow> if k = ''..'' then ''..'' # kept else ks)
      else e # kept)"

definition Clean :: "string \<Rightarrow> string" where
  "Clean path =
     (if path = [] then ''.''
      else
        (let rooted = (hd path = CHR ''/'');
             kept = rev (foldl (cleanStep rooted) [] (splitPath path));
             out = (if rooted then ''/'' else []) @ joinPath kept
         in if out = [] then ''.'' else out))"

text \<open>\<open>filepath.Join\<close>: from the first non-empty element on, joined with \<open>/\<close> and cleaned.\<close>

definition Join :: "string list \<Rightarrow> string" where
  "Join elem = (case dropWhile (\<lambda>e. e = []) elem of [] \<Rightarrow> [] | es \<Rightarrow> Clean (joinPath es))"

text \<open>\<open>filepath.Dir\<close>: all but the last element, cleaned.\<close>

definition Dir :: "string \<Rightarrow> string" where
  "Dir path = Clean (rev (dropWhile (\<lambda>c. c \<noteq> CHR ''/'') (rev path)))"


text \<open>
  The calls of \<open>os\<close> that the resume state functions make. A permission is a number
  (\<open>0o755\<close>, \<open>0o644\<close>). Whether a call fails is decided by the system: the functions take
  the predicate \<open>failing\<close>, and \<open>home\<close>, what \<open>os.UserHomeDir\<close> returns (nothing for an
  error).
\<close>

datatype fs_op = MkdirAll string nat | WriteFile string string nat

definition perm0755 :: nat where
  "perm0755 = 7 * 8 ^ 2 + 5 * 8 + 5"

definition perm0644 :: nat where
  "perm0644 = 6 * 8 ^ 2 + 4 * 8 + 4"

section \<open>cli: the resume state\<close>

record resumeState =
  rs_Type :: string
  rs_SchemaVersion :: int
  rs_App :: string
  rs_UDID :: string
  rs_LastSeenTimestamp :: string
  rs_LastLogTimestamp :: string
  rs_UpdatedAt :: string

datatype resume_error =
    ErrAppRequired
  | ErrPathRequired
  | ErrStateRequired
  | ErrHomeDir
  | ErrMarshal
  | ErrOS fs_op

text \<open>Both functions return their result and the calls of \<open>os\<close> they made, in order.\<close>

definition defaultResumeStatePath ::
  "(fs_op \<Rightarrow> bool) \<Rightarrow> string option \<Rightarrow> string \<Rightarrow> (resume_error + string) \<times> fs_op list" where
  "defaultResumeStatePath failing home app_arg =
     (let app_id = TrimSpace app_arg in
      if app_id = [] then (Inl ErrAppRequired, [])
      else
        (case home of
           None \<Rightarrow> (Inl ErrHomeDir, [])
         | Some h \<Rightarrow>
             (let dir = Join [h, ''.xcw'', ''resume''];
                  mk = MkdirAll dir perm0755
              in if failing mk then (Inl (ErrOS mk), [mk])
                 else (let filename = app_id @ ''.json'' in (Inr (Join [dir, filename]), [mk])))))"

text \<open>
  \<open>json.MarshalIndent(st, "", "  ")\<close> is the parameter \<open>marshal\<close> (nothing for an error).
\<close>

definition saveResumeState ::
  "(fs_op \<Rightarrow> bool) \<Rightarrow> (resumeState \<Rightarrow> string option) \<Rightarrow> string \<Rightarrow> resumeState option
     \<Rightarrow> resume_error option \<times> fs_op list" where
  "saveResumeState failing marshal path_arg st =
     (let path = TrimSpace path_arg in
      if path = [] then (Some ErrPathRequired, [])
      else
        (case st of
           None \<Rightarrow> (Some ErrStateRequired, [])
         | Some state \<Rightarrow>
             (let mk = MkdirAll (Dir path) perm0755 in
              if failing mk then (Some (ErrOS mk), [mk])
              else
                (case marshal state of
                   None \<Rightarrow> (Some ErrMarshal, [mk])
                 | Some b \<Rightarrow>
                     (let wr = WriteFile path (b @ newline) perm0644
                      in (if failing wr then Some (ErrOS wr) else None, [mk, wr]))))))"

text \<open>A path in the form \<open>Clean\<close> returns, rooted, and not the root itself.\<close>

definition cleanRooted :: "string \<Rightarrow> bool" where
  "cleanRooted d = (d \<noteq> [] \<and> hd d = CHR ''/'' \<and> d \<noteq> ''/'' \<and> Clean d = d)"

text \<open>A file or directory name: one element of a path, and neither \<open>.\<close> nor \<open>..\<close>.\<close>

definition plainName :: "string \<Rightarrow> bool" where
  "plainName n = (n \<noteq> [] \<and> CHR ''/'' \<notin> set n \<and> n \<noteq> ''.'' \<and> n \<noteq> ''..'')"

section \<open>Example values\<close>

text \<open>Concrete entries, trackers and clauses, for the instances evaluated below.\<close>

definition entry0 :: LogEntry where
  "entry0 = \<lparr>Timestamp = 0, Level = ''Info'', Process = ''App'', PID = 111,
     ProcessImageUUID = ''U1'', Subsystem = ''com.ex'', Category = ''net'', Message = ''boom''\<rparr>"

text \<open>
  The tracker of \<open>TestTrackerDetectsBinaryUUIDChange\<close> after its first entry, the entry
  given the subsystem of the traced app.
\<close>

definition trackedApp :: Tracker where
  "trackedApp = \<lparr>currentSession = 1, currentPID = 111, sessionStart = 1000, logCount = 1,
     errorCount = 0, faultCount = 0, app = ''com.example.app'', simulator = ''Sim'',
     udid = ''UDID'', initialized = True\<rparr>"

definition appEntry :: "int \<Rightarrow> string \<Rightarrow> string \<Rightarrow> LogEntry" where
  "appEntry pid uuid subsystem =
     \<lparr>Timestamp = 0, Level = LogLevelInfo, Process = [], PID = pid, ProcessImageUUID = uuid,
      Subsystem = subsystem, Category = [], Message = []\<rparr>"

definition levelAtLeastError :: WhereClause where
  "levelAtLeastError = \<lparr>Field = ''Level'', Operator = ''>='', Value = ''error'', regex = None\<rparr>"

definition pidAtLeast :: WhereClause where
  "pidAtLeast = \<lparr>Field = ''pid'', Operator = ''>='', Value = ''100'', regex = None\<rparr>"

definition faultEntry :: LogEntry where
  "faultEntry = \<lparr>Timestamp = 0, Level = LogLevelFault, Process = ''MyApp'', PID = 123,
     ProcessImageUUID = ''UUID-123'', Subsystem = ''com.example.myapp'', Category = ''network'',
     Message = ''Watch error''\<rparr>"

definition errorEntry :: LogEntry where
  "errorEntry = faultEntry\<lparr>Level := LogLevelError\<rparr>"

definition notifyOnError :: WatchCmd where
  "notifyOnError = \<lparr>OnError = ''notify.sh'', OnFault = []\<rparr>"


definition ndjsonGlobals :: Globals where
  "ndjsonGlobals = \<lparr>Format = ''ndjson'', Quiet = False\<rparr>"

definition quietTextGlobals :: Globals where
  "quietTextGlobals = \<lparr>Format = ''text'', Quiet = True\<rparr>"

definition homeDev :: string where "homeDev = ''/Users/dev''"

definition resumeExample :: resumeState where
  "resumeExample = \<lparr>rs_Type = ''resume_state'', rs_SchemaVersion = 1, rs_App = ''com.example.myapp'',
     rs_UDID = ''ABC123'', rs_LastSeenTimestamp = ''2025-12-14T22:00:00Z'',
     rs_LastLogTimestamp = ''2025-12-14T22:00:01.123456789Z'', rs_UpdatedAt = ''2025-12-14T22:00:02Z''\<rparr>"

text \<open>A loop in which one command, started at the instant 10, still runs.\<close>

definition oneRunning :: watchState where
  "oneRunning = watchStart\<lparr>running :=
     [\<lparr>run_command = ''notify.sh'', run_trigger = ''error'', run_entry = errorEntry\<rparr>],
     times := (times watchStart)\<lparr>lastErrorTrigger := 10\<rparr>\<rparr>"

section \<open>The dedupe filter: results of \<open>Check\<close>\<close>

lemma window_Check [simp]: "window (snd (Check f entry now)) = window f"
  by (simp add: Check_def Let_def emitNew_def cleanOldEntries_def split: option.splits)

lemma counts_positive_clean: "counts_positive f \<Longrightarrow> counts_positive (cleanOldEntries f now)"
  by (auto simp: counts_positive_def cleanOldEntries_def Let_def split: option.splits if_splits)

lemma counts_positive_emitNew: "counts_positive f \<Longrightarrow> counts_positive (snd (emitNew f key now))"
  by (auto simp: counts_positive_def emitNew_def)

lemma counts_positive_bump:
  "counts_positive f \<Longrightarrow> seen f key = Some e \<Longrightarrow>
   counts_positive (f\<lparr>seen := (seen f)(key \<mapsto> e\<lparr>count := count e + 1, lastSeen := now\<rparr>)\<rparr>)"
  by (fastforce simp: counts_positive_def)

lemma counts_positive_Check: 
  assumes "counts_positive f" shows "counts_positive (snd (Check f entry now))"
proof -
  let ?g = "if window f > 0 then cleanOldEntries f now else f"
  have g: "counts_positive ?g" using assms by (simp add: counts_positive_clean)
  show ?thesis
  proof (cases "seen ?g (Message entry)")
    case None
    then show ?thesis using counts_positive_emitNew[OF g] by (simp add: Check_def Let_def)
  next
    case (Some e)
    from counts_positive_bump[OF g Some]
    have b: "counts_positive (?g\<lparr>seen := (seen ?g)(Message entry \<mapsto> e\<lparr>count := count e + 1, lastSeen := now\<rparr>)\<rparr>)" .
    show ?thesis using Some b counts_positive_emitNew[OF b]
      by (simp add: Check_def Let_def)
  qed
qed

lemma counts_positive_after_calls: "counts_positive (after_calls w calls)"
proof -
  have "counts_positive f \<Longrightarrow> counts_positive (foldl apply_call f calls)" for f
  proof (induction calls arbitrary: f)
    case Nil then show ?case by simp
  next
    case (Cons c cs)
    have "counts_positive (apply_call f c)"
      using Cons.prems by (cases c) (simp_all add: counts_positive_Check, simp add: counts_positive_def Reset_def)
    then show ?case using Cons.IH by simp
  qed
  moreover have "counts_positive (NewDedupeFilter w)" by (simp add: counts_positive_def NewDedupeFilter_def)
  ultimately show ?thesis by (simp add: after_calls_def)
qed

lemma Check_result_cases:
  assumes "counts_positive f" and "r = fst (Check f entry now)"
  shows "(ShouldEmit r \<and> Count r = 1 \<and> FirstSeen r = now \<and> LastSeen r = now) \<or> (\<not> ShouldEmit r \<and> 2 \<le> Count r)"
proof -
  let ?g = "if window f > 0 then cleanOldEntries f now else f"
  have g: "counts_positive ?g" using assms by (simp add: counts_positive_clean)
  show ?thesis
  proof (cases "seen ?g (Message entry)")
    case None
    then show ?thesis using assms(2) by (simp add: Check_def Let_def emitNew_def)
  next
    case (Some e)
    then have "1 \<le> count e" using g by (simp add: counts_positive_def)
    then show ?thesis using Some assms(2) by (simp add: Check_def Let_def emitNew_def suppressed_def)
  qed
qed

text \<open>
  C10. For every dedupe filter state (any window, any history of \<open>Check\<close> and \<open>Reset\<close>
  calls since \<open>NewDedupeFilter\<close>) and every log entry, the result of \<open>Check\<close> has
  \<open>ShouldEmit\<close> exactly when \<open>Count = 1\<close>, and when \<open>Count = 1\<close> its \<open>FirstSeen\<close> equals
  its \<open>LastSeen\<close>.
\<close>

theorem Check_emit_iff_first:
  "(ShouldEmit (fst (Check (after_calls w calls) entry now)) \<longleftrightarrow>
      Count (fst (Check (after_calls w calls) entry now)) = 1) \<and>
   (Count (fst (Check (after_calls w calls) entry now)) = 1 \<longrightarrow>
      FirstSeen (fst (Check (after_calls w calls) entry now)) =
      LastSeen (fst (Check (after_calls w calls) entry now)))"
  using Check_result_cases[OF counts_positive_after_calls refl, of w calls entry now]
  by auto

theorem Check_emit_iff_first_witness:
  "Count (fst (Check (after_calls 0 []) entry0 10)) = 1 \<and>
   ShouldEmit (fst (Check (after_calls 0 []) entry0 10)) \<and>
   FirstSeen (fst (Check (after_calls 0 []) entry0 10)) =
   LastSeen (fst (Check (after_calls 0 []) entry0 10))"
proof -
  have c: "Count (fst (Check (after_calls 0 []) entry0 10)) = 1"
    by (simp add: after_calls_def NewDedupeFilter_def Check_def emitNew_def Let_def)
  show ?thesis using Check_emit_iff_first[of 0 "[]" entry0 10] c by simp
qed

section \<open>The dedupe filter: a run of identical messages\<close>

text \<open>
  Inside a run: the last emitted message is \<open>L\<close> and \<open>L\<close> is stored. Every further
  \<open>Check\<close> of \<open>L\<close> is suppressed and adds one to the stored count.
\<close>

lemma checks_inside_run:
  assumes "window f \<le> 0" and "lastMessage f = L" and "seen f L = Some e"
    and "\<forall>p \<in> set run. Message (fst p) = L"
  shows "map ShouldEmit (fst (checks f run)) = replicate (length run) False \<and>
         (\<exists>e'. seen (snd (checks f run)) L = Some e' \<and> count e' = count e + int (length run))"
  using assms
proof (induction run arbitrary: f e)
  case Nil
  then show ?case by simp
next
  case (Cons p run)
  obtain entry now where p: "p = (entry, now)" by (cases p)
  have msg: "Message entry = L" using Cons.prems(4) p by simp
  let ?e' = "e\<lparr>count := count e + 1, lastSeen := now\<rparr>"
  let ?f' = "f\<lparr>seen := (seen f)(L \<mapsto> ?e')\<rparr>"
  have step: "Check f entry now = (suppressed ?e', ?f')"
    using Cons.prems(1-3) msg by (simp add: Check_def Let_def)
  have IH: "map ShouldEmit (fst (checks ?f' run)) = replicate (length run) False \<and>
         (\<exists>e'. seen (snd (checks ?f' run)) L = Some e' \<and> count e' = count ?e' + int (length run))"
    by (rule Cons.IH) (use Cons.prems in simp_all)
  then obtain e' where e': "seen (snd (checks ?f' run)) L = Some e'" "count e' = count ?e' + int (length run)"
    and flags: "map ShouldEmit (fst (checks ?f' run)) = replicate (length run) False"
    by blast
  have 1: "fst (checks f (p # run)) = suppressed ?e' # fst (checks ?f' run)"
    and 2: "snd (checks f (p # run)) = snd (checks ?f' run)"
    by (simp_all add: p step split_beta)
  have "map ShouldEmit (fst (checks f (p # run))) = replicate (length (p # run)) False"
    unfolding 1 using flags by (simp add: suppressed_def)
  moreover have "seen (snd (checks f (p # run))) L = Some e' \<and> count e' = count e + int (length (p # run))"
    unfolding 2 using e' by simp
  ultimately show ?case by blast
qed

lemma checks_run_from_start:
  assumes w: "window f \<le> 0" and start: "lastMessage f = L \<longrightarrow> seen f L = None"
    and run: "run \<noteq> []" "\<forall>p \<in> set run. Message (fst p) = L"
  shows "map ShouldEmit (fst (checks f run)) = True # replicate (length run - 1) False \<and>
         Count (hd (fst (checks f run))) = 1 \<and>
         (\<exists>e'. seen (snd (checks f run)) L = Some e' \<and> count e' = int (length run))"
proof -
  obtain entry now rest where r: "run = (entry, now) # rest" using run(1) by (cases run) auto
  have msg: "Message entry = L" using run(2) r by simp
  let ?new = "\<lparr>count = 1, firstSeen = now, lastSeen = now\<rparr>"
  have "\<exists>g. Check f entry now = emitNew g L now \<and> window g = window f"
  proof (cases "seen f L")
    case None
    then have "Check f entry now = emitNew f L now" using w msg by (simp add: Check_def Let_def)
    then show ?thesis by blast
  next
    case (Some e)
    let ?g = "f\<lparr>seen := (seen f)(L \<mapsto> e\<lparr>count := count e + 1, lastSeen := now\<rparr>)\<rparr>"
    have "lastMessage f \<noteq> L" using start Some by auto
    then have "Check f entry now = emitNew ?g L now" using w msg Some by (simp add: Check_def Let_def)
    moreover have "window ?g = window f" by simp
    ultimately show ?thesis by blast
  qed
  then obtain g where g: "Check f entry now = emitNew g L now" "window g = window f" by blast
  let ?f1 = "snd (emitNew g L now)"
  have f1: "window ?f1 \<le> 0" "lastMessage ?f1 = L" "seen ?f1 L = Some ?new"
    using g(2) w by (simp_all add: emitNew_def)
  have rest: "\<forall>p \<in> set rest. Message (fst p) = L" using run(2) r by simp
  from checks_inside_run[OF f1 rest]
  obtain e' where e': "seen (snd (checks ?f1 rest)) L = Some e'" "count e' = count ?new + int (length rest)"
    and flags: "map ShouldEmit (fst (checks ?f1 rest)) = replicate (length rest) False"
    by blast
  have 1: "fst (checks f run) = fst (emitNew g L now) # fst (checks ?f1 rest)"
    and 2: "snd (checks f run) = snd (checks ?f1 rest)"
    by (simp_all add: r g(1) split_beta)
  have "map ShouldEmit (fst (checks f run)) = True # replicate (length run - 1) False"
    unfolding 1 using flags by (simp add: emitNew_def r)
  moreover have "Count (hd (fst (checks f run))) = 1"
    unfolding 1 by (simp add: emitNew_def)
  moreover have "seen (snd (checks f run)) L = Some e' \<and> count e' = int (length run)"
    unfolding 2 using e' by (simp add: r)
  ultimately show ?thesis by blast
qed

lemma lastMessage_Check:
  "lastMessage (snd (Check f e t)) = Message e \<or>
   (lastMessage (snd (Check f e t)) = lastMessage f \<and> 0 < window f)"
proof (cases "0 < window f")
  case True
  then show ?thesis 
    by (cases "seen (cleanOldEntries f t) (Message e)") (simp_all add: Check_def Let_def emitNew_def suppressed_def cleanOldEntries_def)
next
  case False
  then show ?thesis 
    by (cases "seen f (Message e)") (simp_all add: Check_def Let_def emitNew_def suppressed_def)
qed

lemma run_start_after_calls:
  assumes "w \<le> 0"
    and "calls = [] \<or> last calls = DoReset \<or> (\<exists>e t. last calls = DoCheck e t \<and> Message e \<noteq> L)"
  shows "lastMessage (after_calls w calls) = L \<longrightarrow> seen (after_calls w calls) L = None"
proof (cases calls rule: rev_cases)
  case Nil
  then show ?thesis by (simp add: after_calls_def NewDedupeFilter_def)
next
  case (snoc cs c)
  have win: "window (foldl apply_call f cs) = window f" for f
  proof (induction cs arbitrary: f)
    case Nil then show ?case by simp
  next
    case (Cons a cs) then show ?case by (cases a) (simp_all add: Reset_def)
  qed
  show ?thesis
  proof (cases c)
    case (DoCheck e t)
    then have ne: "Message e \<noteq> L" using assms snoc by auto
    let ?f = "foldl apply_call (NewDedupeFilter w) cs"
    have "window ?f \<le> 0" using win[of "NewDedupeFilter w"] assms(1) by (simp add: NewDedupeFilter_def)
    then have "lastMessage (snd (Check ?f e t)) = Message e"
      using lastMessage_Check[of ?f e t] by auto
    then show ?thesis using ne snoc DoCheck by (simp add: after_calls_def)
  next
    case DoReset
    then show ?thesis using snoc by (simp add: after_calls_def Reset_def)
  qed
qed

lemma window_after_calls: "window (after_calls w calls) = w"
proof -
  have "window (foldl apply_call f calls) = window f" for f
  proof (induction calls arbitrary: f)
    case Nil then show ?case by simp
  next
    case (Cons a cs) then show ?case by (cases a) (simp_all add: Reset_def)
  qed
  then show ?thesis by (simp add: after_calls_def NewDedupeFilter_def)
qed

text \<open>
  C6. For every message \<open>L\<close> and every run of \<open>K \<ge> 1\<close> consecutive entries with message
  \<open>L\<close>, given to \<open>Check\<close> on a filter in consecutive mode (the window is not positive)
  whose previous call, if any, was \<open>Reset\<close> or a \<open>Check\<close> of another message:
  \<open>ShouldEmit\<close> is true on the first call, with \<open>Count = 1\<close>, and false on the other
  \<open>K - 1\<close>; afterwards \<open>GetPendingDuplicates\<close> holds \<open>L\<close> with count \<open>K\<close> when \<open>K > 1\<close>
  (and does not hold \<open>L\<close> when \<open>K = 1\<close>).
\<close>

theorem consecutive_run_emits_once:
  assumes "w \<le> 0"
    and "calls = [] \<or> last calls = DoReset \<or> (\<exists>e t. last calls = DoCheck e t \<and> Message e \<noteq> L)"
    and "run \<noteq> []" and "\<forall>p \<in> set run. Message (fst p) = L"
  shows "map ShouldEmit (fst (checks (after_calls w calls) run)) = True # replicate (length run - 1) False \<and>
         Count (hd (fst (checks (after_calls w calls) run))) = 1 \<and>
         (if 1 < length run
          then \<exists>e'. GetPendingDuplicates (snd (checks (after_calls w calls) run)) L = Some e' \<and>
                    count e' = int (length run)
          else GetPendingDuplicates (snd (checks (after_calls w calls) run)) L = None)"
proof -
  have "window (after_calls w calls) \<le> 0" using assms(1) by (simp add: window_after_calls)
  note st = checks_run_from_start[OF this run_start_after_calls[OF assms(1,2)] assms(3,4)]
  have flags: "map ShouldEmit (fst (checks (after_calls w calls) run)) = True # replicate (length run - 1) False"
    using st by (rule conjunct1)
  have c1: "Count (hd (fst (checks (after_calls w calls) run))) = 1"
    using st by (elim conjE)
  have "\<exists>e'. seen (snd (checks (after_calls w calls) run)) L = Some e' \<and> count e' = int (length run)"
    using st by (elim conjE)
  then obtain e' where e': "seen (snd (checks (after_calls w calls) run)) L = Some e'" "count e' = int (length run)"
    by (elim exE conjE) (rule that)
  have "length run \<ge> 1" using assms(3) by (cases run) auto
  have pend: "GetPendingDuplicates (snd (checks (after_calls w calls) run)) L =
      (if 1 < length run then Some e' else None)"
    using e' by (simp add: GetPendingDuplicates_def)
  show ?thesis
  proof (cases "1 < length run")
    case True
    then show ?thesis using flags c1 pend e'(2) by simp
  next
    case False
    then show ?thesis using flags c1 pend by simp
  qed
qed

theorem consecutive_run_emits_once_witness:
  "map ShouldEmit (fst (checks (after_calls 0 [DoCheck (entry0\<lparr>Message := ''other''\<rparr>) 5])
       [(entry0, 10), (entry0, 11), (entry0, 12)])) = [True, False, False] \<and>
   (\<exists>e'. GetPendingDuplicates (snd (checks (after_calls 0 [DoCheck (entry0\<lparr>Message := ''other''\<rparr>) 5])
       [(entry0, 10), (entry0, 11), (entry0, 12)])) ''boom'' = Some e' \<and> count e' = 3)"
proof -
  let ?calls = "[DoCheck (entry0\<lparr>Message := ''other''\<rparr>) 5]"
  let ?run = "[(entry0, 10), (entry0, 11), (entry0, 12)]"
  define res where "res = checks (after_calls 0 ?calls) ?run"
  have h1: "(0::int) \<le> 0" by simp
  have h2: "?calls = [] \<or> last ?calls = DoReset \<or> (\<exists>e t. last ?calls = DoCheck e t \<and> Message e \<noteq> ''boom'')"
    by simp
  have h3: "?run \<noteq> []" by simp
  have h4: "\<forall>p \<in> set ?run. Message (fst p) = ''boom''" by (simp add: entry0_def)
  have len: "length ?run = 3" by simp
  have rep: "True # replicate (3 - 1) False = [True, False, False]" by (simp add: eval_nat_numeral)
  note inst = consecutive_run_emits_once[OF h1 h2 h3 h4, unfolded len rep, folded res_def]
  have "map ShouldEmit (fst res) = [True, False, False] \<and>
     (\<exists>e'. GetPendingDuplicates (snd res) ''boom'' = Some e' \<and> count e' = 3)"
    using inst by simp
  then show ?thesis unfolding res_def .
qed



section \<open>The session tracker\<close>

lemma matchesApp_HasPrefix: "matchesApp t entry = HasPrefix (Subsystem entry) (app t)"
  by (simp add: matchesApp_def HasPrefix_def)

text \<open>
  The tracker of the examples is the one \<open>NewTracker\<close> and a first entry of the app give.
\<close>

lemma trackedApp_reached:
  "snd (CheckEntry (NewTracker ''com.example.app'' ''Sim'' ''UDID'')
          (appEntry 111 ''UUID-1'' ''com.example.app'') 1000) = trackedApp"
  by (simp add: CheckEntry_def NewTracker_def appEntry_def matchesApp_def updateCounts_def
      trackedApp_def Let_def LogLevelInfo_def LogLevelError_def LogLevelFault_def)

text \<open>
  The half of C1 that the code has: on an initialized tracker, an entry of the app with
  a new, positive PID ends the session and starts the next one. The alert and the
  previous PID are set when the previous PID is positive.
\<close>

lemma CheckEntry_pid_change:
  assumes "initialized t" and "Subsystem entry = app t \<or> matchesApp t entry"
    and "PID entry \<noteq> currentPID t" and "0 < PID entry"
  shows "\<exists>e s. fst (CheckEntry t entry now) = Some \<lparr>EndSession = Some e, StartSession = Some s\<rparr> \<and>
           end_Session e = currentSession t \<and> end_PID e = currentPID t \<and>
           start_Session s = currentSession t + 1 \<and> start_PID s = PID entry \<and>
           (0 < currentPID t \<longrightarrow>
              start_PreviousPID s = currentPID t \<and> start_Alert s = ''APP_RELAUNCHED'') \<and>
           (currentPID t \<le> 0 \<longrightarrow> start_PreviousPID s = 0 \<and> start_Alert s = [])"
  using assms
  by (auto simp: CheckEntry_def Let_def NewSessionEnd_def NewSessionStart_def updateCounts_def)

text \<open>
  C1, at the input of \<open>TestTrackerDetectsBinaryUUIDChange\<close>: the tracker holds session 1
  of PID 111, and an entry of the app arrives with the same PID 111 and another binary
  UUID. \<open>CheckEntry\<close> returns nil and the session stays 1: the tracker never reads
  \<open>ProcessImageUUID\<close>. (With the entries of the test as they are written, without a
  subsystem, already the first call returns nil.)
\<close>

theorem CheckEntry_uuid_change_no_rollover:
  "fst (CheckEntry trackedApp (appEntry 111 ''UUID-2'' ''com.example.app'') 2000) = None \<and>
   currentSession (snd (CheckEntry trackedApp (appEntry 111 ''UUID-2'' ''com.example.app'') 2000)) = 1 \<and>
   fst (CheckEntry (NewTracker ''com.example.app'' ''Sim'' ''UDID'') (appEntry 111 ''UUID-1'' []) 1000) = None"
  by (simp add: CheckEntry_def appEntry_def matchesApp_def updateCounts_def NewTracker_def
      trackedApp_def Let_def LogLevelInfo_def LogLevelError_def LogLevelFault_def)

text \<open>
  C3, amended. For every log entry whose subsystem does not start with the traced bundle
  identifier, \<open>CheckEntry\<close> returns nil and leaves the current session, the current PID
  and the session start time unchanged. On an initialized tracker it adds one to the log
  count, and one to the error count or the fault count when the entry's level is Error
  or Fault; a tracker that is not initialized is left as it is.
\<close>

theorem CheckEntry_other_subsystem:
  assumes "\<not> HasPrefix (Subsystem entry) (app t)"
  shows "fst (CheckEntry t entry now) = None \<and>
         currentSession (snd (CheckEntry t entry now)) = currentSession t \<and>
         currentPID (snd (CheckEntry t entry now)) = currentPID t \<and>
         sessionStart (snd (CheckEntry t entry now)) = sessionStart t \<and>
         logCount (snd (CheckEntry t entry now)) =
           (if initialized t then logCount t + 1 else logCount t) \<and>
         errorCount (snd (CheckEntry t entry now)) =
           (if initialized t \<and> Level entry = LogLevelError then errorCount t + 1 else errorCount t) \<and>
         faultCount (snd (CheckEntry t entry now)) =
           (if initialized t \<and> Level entry = LogLevelFault then faultCount t + 1 else faultCount t) \<and>
         (if initialized t then initialized (snd (CheckEntry t entry now))
          else snd (CheckEntry t entry now) = t)"
proof -
  have "\<not> matchesApp t entry" using assms by (simp add: matchesApp_HasPrefix)
  moreover have "Subsystem entry \<noteq> app t" using assms by (auto simp: HasPrefix_def)
  moreover have "LogLevelError \<noteq> LogLevelFault" by (simp add: LogLevelError_def LogLevelFault_def)
  ultimately show ?thesis
    by (simp add: CheckEntry_def updateCounts_def)
qed

theorem CheckEntry_other_subsystem_witness:
  "\<not> HasPrefix (Subsystem (appEntry 111 ''UUID-1'' ''com.apple.network'')) (app trackedApp) \<and>
   fst (CheckEntry trackedApp (appEntry 111 ''UUID-1'' ''com.apple.network'') 2000) = None \<and>
   currentSession (snd (CheckEntry trackedApp (appEntry 111 ''UUID-1'' ''com.apple.network'') 2000)) = 1 \<and>
   logCount (snd (CheckEntry trackedApp (appEntry 111 ''UUID-1'' ''com.apple.network'') 2000)) = 2"
proof -
  have h: "\<not> HasPrefix (Subsystem (appEntry 111 ''UUID-1'' ''com.apple.network'')) (app trackedApp)"
    by (simp add: HasPrefix_def appEntry_def trackedApp_def)
  have t: "initialized trackedApp" "currentSession trackedApp = 1" "logCount trackedApp = 1"
    by (simp_all add: trackedApp_def)
  show ?thesis
    using CheckEntry_other_subsystem[OF h, of 2000] h t by simp
qed

text \<open>
  C3 as it is stated fails twice on the tracker of the examples. An entry of another
  subsystem changes the log count (1 before, 2 after). And an entry whose subsystem
  starts with the bundle identifier, but neither equals it nor goes on with a dot, counts
  as the app's: with a new PID it rolls the session over.
\<close>

theorem CheckEntry_other_subsystem_counterexample:
  "Subsystem (appEntry 111 ''UUID-1'' ''com.apple.network'') \<noteq> app trackedApp \<and>
   \<not> HasPrefix (Subsystem (appEntry 111 ''UUID-1'' ''com.apple.network'')) (app trackedApp @ ''.'') \<and>
   logCount trackedApp = 1 \<and>
   logCount (snd (CheckEntry trackedApp (appEntry 111 ''UUID-1'' ''com.apple.network'') 2000)) = 2 \<and>
   Subsystem (appEntry 222 ''UUID-1'' ''com.example.application'') \<noteq> app trackedApp \<and>
   \<not> HasPrefix (Subsystem (appEntry 222 ''UUID-1'' ''com.example.application'')) (app trackedApp @ ''.'') \<and>
   fst (CheckEntry trackedApp (appEntry 222 ''UUID-1'' ''com.example.application'') 2000) \<noteq> None \<and>
   currentSession (snd (CheckEntry trackedApp (appEntry 222 ''UUID-1'' ''com.example.application'') 2000)) = 2"
  by (simp add: CheckEntry_def appEntry_def matchesApp_def updateCounts_def HasPrefix_def
      trackedApp_def Let_def LogLevelInfo_def LogLevelError_def LogLevelFault_def)

section \<open>WHERE clauses\<close>

text \<open>
  C8, at a clause that begins with a compound operator. \<open>strings.Index\<close> finds \<open>!=\<close> in
  \<open>!=x\<close> at index 0, which \<open>idx > 0\<close> passes over as if the operator were absent; the
  loop goes on to \<open>=\<close>, found at index 1, and the clause is split at the single character
  inside the compound operator and accepted with the field \<open>!\<close>. Its neighbours are
  errors: with a space in front the clause is split at \<open>!=\<close> and refused for the empty
  field, and \<open>=x\<close> has no operator at a positive index. A clause with the compound
  operator after a field is split at it.
\<close>

theorem ParseWhereClause_leading_compound:
  "ParseWhereClause (\<lambda>v. None) ''!=x'' =
     Inr \<lparr>Field = ''!'', Operator = ''='', Value = ''x'', regex = None\<rparr> \<and>
   ParseWhereClause (\<lambda>v. None) '' !=x'' = Inl (InvalidWhereClause '' !=x'') \<and>
   ParseWhereClause (\<lambda>v. None) ''=x'' = Inl (NoValidOperator ''=x'') \<and>
   ParseWhereClause (\<lambda>v. None) ''level!=error'' =
     Inr \<lparr>Field = ''level'', Operator = ''!='', Value = ''error'', regex = None\<rparr>"
  by (simp add: ParseWhereClause_def operators_def HasPrefix_def HasSuffix_def TrimSpace_def
      leadingSpace_def trailingSpace_def spaceRunes_def)

text \<open>
  C9. For every WHERE clause whose operator is \<open>>=\<close> or \<open><=\<close>: when its field is
  \<open>level\<close> in any case of the letters, \<open>Match\<close> compares the priority of the entry's
  level with the priority of the level the value parses to; for any other field it
  matches no entry.
\<close>

theorem Match_level_comparison:
  assumes "Operator wc = ''>='' \<or> Operator wc = ''<=''"
  shows "Match wc entry =
           (ToLower (Field wc) = ''level'' \<and>
            (if Operator wc = ''>=''
             then Priority (Level entry) \<ge> Priority (ParseLogLevel (Value wc))
             else Priority (Level entry) \<le> Priority (ParseLogLevel (Value wc))))"
  using assms by (auto simp: Match_def compareLevel_def Let_def)

theorem Match_level_comparison_witness:
  "Match levelAtLeastError faultEntry \<and>
   \<not> Match levelAtLeastError (faultEntry\<lparr>Level := LogLevelInfo\<rparr>) \<and>
   \<not> Match pidAtLeast faultEntry"
proof -
  have op1: "Operator levelAtLeastError = ''>='' \<or> Operator levelAtLeastError = ''<=''"
    by (simp add: levelAtLeastError_def)
  have op2: "Operator pidAtLeast = ''>='' \<or> Operator pidAtLeast = ''<=''"
    by (simp add: pidAtLeast_def)
  have f1: "ToLower (Field levelAtLeastError) = ''level''"
    unfolding levelAtLeastError_def by code_simp
  have f2: "ToLower (Field pidAtLeast) \<noteq> ''level''"
    unfolding pidAtLeast_def by code_simp
  have p: "Priority (ParseLogLevel (Value levelAtLeastError)) = 3"
    unfolding levelAtLeastError_def by code_simp
  have l: "Priority (Level faultEntry) = 4" "Priority (Level (faultEntry\<lparr>Level := LogLevelInfo\<rparr>)) = 1"
    unfolding faultEntry_def by code_simp+
  show ?thesis
    using Match_level_comparison[OF op1, of faultEntry]
      Match_level_comparison[OF op1, of "faultEntry\<lparr>Level := LogLevelInfo\<rparr>"]
      Match_level_comparison[OF op2, of faultEntry]
      f1 f2 p l
    by (simp add: levelAtLeastError_def)
qed

section \<open>The watch command: cooldown\<close>

lemma checkPatterns_other_times:
  "lastErrorTrigger (fst (checkPatterns cd ts i e now lt)) = lastErrorTrigger lt \<and>
   lastFaultTrigger (fst (checkPatterns cd ts i e now lt)) = lastFaultTrigger lt"
  by (induction ts arbitrary: i lt) (simp_all add: split_beta Let_def)

lemma checkPatterns_ids:
  "call_id ` set (snd (checkPatterns cd ts i e now lt)) =
     {PatternTrigger j | j. i \<le> j \<and> j < i + length ts \<and>
        MatchString (pattern (ts ! (j - i))) (Message e) \<and>
        Sub now (patternTime (lastPatternTriggers lt) j) \<ge> cd}"
proof (induction ts arbitrary: i lt)
  case Nil
  then show ?case by simp
next
  case (Cons t ts)
  let ?lt' = "lt\<lparr>lastPatternTriggers := (lastPatternTriggers lt)(i \<mapsto> now)\<rparr>"
  have keep: "patternTime (lastPatternTriggers ?lt') j = patternTime (lastPatternTriggers lt) j"
    if "Suc i \<le> j" for j using that by (simp add: patternTime_def)
  have idx: "(t # ts) ! (j - i) = ts ! (j - Suc i)" if "Suc i \<le> j" for j
    using that by (simp add: Suc_diff_le)
  have split: "{PatternTrigger j | j. i \<le> j \<and> j < i + length (t # ts) \<and> P j} =
      (if P i then {PatternTrigger i} else {}) \<union> {PatternTrigger j | j. Suc i \<le> j \<and> j < Suc i + length ts \<and> P j}"
    for P
  proof -
    have "i \<le> j \<longleftrightarrow> j = i \<or> Suc i \<le> j" for j by auto
    then show ?thesis by auto
  qed
  show ?case
  proof (cases "MatchString (pattern t) (Message e) \<and> Sub now (patternTime (lastPatternTriggers lt) i) \<ge> cd")
    case True
    have "call_id ` set (snd (checkPatterns cd (t # ts) i e now lt)) =
          insert (PatternTrigger i) (call_id ` set (snd (checkPatterns cd ts (Suc i) e now ?lt')))"
      using True by (simp add: split_beta Let_def)
    also have "\<dots> = insert (PatternTrigger i) {PatternTrigger j | j. Suc i \<le> j \<and> j < Suc i + length ts \<and>
        MatchString (pattern (ts ! (j - Suc i))) (Message e) \<and>
        Sub now (patternTime (lastPatternTriggers ?lt') j) \<ge> cd}"
      by (simp only: Cons.IH)
    also have "\<dots> = insert (PatternTrigger i) {PatternTrigger j | j. Suc i \<le> j \<and> j < Suc i + length ts \<and>
        MatchString (pattern ((t # ts) ! (j - i))) (Message e) \<and>
        Sub now (patternTime (lastPatternTriggers lt) j) \<ge> cd}"
      using keep idx by (intro arg_cong[where f="insert (PatternTrigger i)"]) (auto simp del: nth_Cons_Suc)
    finally show ?thesis using True by (subst split) simp
  next
    case False
    have "call_id ` set (snd (checkPatterns cd (t # ts) i e now lt)) =
          call_id ` set (snd (checkPatterns cd ts (Suc i) e now lt))"
      using False by (auto simp add: split_beta Let_def)
    also have "\<dots> = {PatternTrigger j | j. Suc i \<le> j \<and> j < Suc i + length ts \<and>
        MatchString (pattern (ts ! (j - Suc i))) (Message e) \<and>
        Sub now (patternTime (lastPatternTriggers lt) j) \<ge> cd}"
      by (simp only: Cons.IH)
    also have "\<dots> = {PatternTrigger j | j. Suc i \<le> j \<and> j < Suc i + length ts \<and>
        MatchString (pattern ((t # ts) ! (j - i))) (Message e) \<and>
        Sub now (patternTime (lastPatternTriggers lt) j) \<ge> cd}"
      using idx by (auto simp del: nth_Cons_Suc)
    finally show ?thesis using False by (subst split) auto
  qed
qed


lemma checkPatterns_time:
  "patternTime (lastPatternTriggers (fst (checkPatterns cd ts i e now lt))) j =
     (if i \<le> j \<and> j < i + length ts \<and> MatchString (pattern (ts ! (j - i))) (Message e) \<and>
         Sub now (patternTime (lastPatternTriggers lt) j) \<ge> cd
      then now else patternTime (lastPatternTriggers lt) j)"
proof (induction ts arbitrary: i lt)
  case Nil
  then show ?case by simp
next
  case (Cons t ts)
  let ?lt' = "lt\<lparr>lastPatternTriggers := (lastPatternTriggers lt)(i \<mapsto> now)\<rparr>"
  have upd: "patternTime (lastPatternTriggers ?lt') j = (if j = i then now else patternTime (lastPatternTriggers lt) j)"
    by (simp add: patternTime_def)
  have idx: "(t # ts) ! (j - i) = ts ! (j - Suc i)" if "Suc i \<le> j"
    using that by (simp add: Suc_diff_le)
  consider (eq) "j = i" | (lt) "j < i" | (gt) "Suc i \<le> j" by linarith
  then show ?case
  proof cases
    case eq
    then show ?thesis using Cons.IH[of "Suc i"] upd by (simp add: split_beta Let_def)
  next
    case lt
    then show ?thesis using Cons.IH[of "Suc i"] upd by (simp add: split_beta Let_def)
  next
    case gt
    then have "j \<noteq> i" "i \<le> j" by simp_all
    then show ?thesis using Cons.IH[of "Suc i"] upd idx[OF gt] gt
      by (simp add: split_beta Let_def del: nth_Cons_Suc)
  qed
qed

lemma patterns_from_zero:
  "{PatternTrigger j | j. 0 \<le> j \<and> j < 0 + length ts \<and> MatchString (pattern (ts ! (j - 0))) (Message e) \<and>
        Sub now (patternTime (lastPatternTriggers lt) j) \<ge> cd} =
   {tid. \<exists>j. tid = PatternTrigger j \<and> matchesTrigger c ts tid e \<and> Sub now (lastFire lt tid) \<ge> cd}"
  by auto

lemma checkTriggers_ids:
  "call_id ` set (snd (checkTriggers c cd ts e now lt)) =
     {tid. matchesTrigger c ts tid e \<and> Sub now (lastFire lt tid) \<ge> cd}"
proof -
  let ?fireE = "OnError c \<noteq> [] \<and> Level e = LogLevelError \<and> Sub now (lastErrorTrigger lt) \<ge> cd"
  let ?lt1 = "if ?fireE then lt\<lparr>lastErrorTrigger := now\<rparr> else lt"
  let ?fireF = "OnFault c \<noteq> [] \<and> Level e = LogLevelFault \<and> Sub now (lastFaultTrigger lt) \<ge> cd"
  let ?lt2 = "if ?fireF then ?lt1\<lparr>lastFaultTrigger := now\<rparr> else ?lt1"
  have f1: "lastFaultTrigger ?lt1 = lastFaultTrigger lt" by simp
  have p2: "lastPatternTriggers ?lt2 = lastPatternTriggers lt" by simp
  have ids: "call_id ` set (snd (checkTriggers c cd ts e now lt)) =
      (if ?fireE then {ErrorTrigger} else {}) \<union> (if ?fireF then {FaultTrigger} else {}) \<union>
      call_id ` set (snd (checkPatterns cd ts 0 e now ?lt2))"
    by (simp add: checkTriggers_def split_beta Let_def image_Un)
  have pat: "call_id ` set (snd (checkPatterns cd ts 0 e now ?lt2)) =
      {tid. \<exists>j. tid = PatternTrigger j \<and> matchesTrigger c ts tid e \<and> Sub now (lastFire lt tid) \<ge> cd}"
    unfolding checkPatterns_ids p2 by auto
  show ?thesis
  proof (rule set_eqI)
    fix tid
    show "tid \<in> call_id ` set (snd (checkTriggers c cd ts e now lt)) \<longleftrightarrow>
          tid \<in> {tid. matchesTrigger c ts tid e \<and> Sub now (lastFire lt tid) \<ge> cd}"
      unfolding ids pat by (cases tid) auto
  qed
qed

lemma checkTriggers_lastFire:
  "lastFire (fst (checkTriggers c cd ts e now lt)) tid =
     (if matchesTrigger c ts tid e \<and> Sub now (lastFire lt tid) \<ge> cd then now else lastFire lt tid)"
proof -
  let ?fireE = "OnError c \<noteq> [] \<and> Level e = LogLevelError \<and> Sub now (lastErrorTrigger lt) \<ge> cd"
  let ?lt1 = "if ?fireE then lt\<lparr>lastErrorTrigger := now\<rparr> else lt"
  let ?fireF = "OnFault c \<noteq> [] \<and> Level e = LogLevelFault \<and> Sub now (lastFaultTrigger lt) \<ge> cd"
  let ?lt2 = "if ?fireF then ?lt1\<lparr>lastFaultTrigger := now\<rparr> else ?lt1"
  have p2: "lastPatternTriggers ?lt2 = lastPatternTriggers lt" by simp
  have fst_eq: "fst (checkTriggers c cd ts e now lt) = fst (checkPatterns cd ts 0 e now ?lt2)"
    by (simp add: checkTriggers_def split_beta Let_def)
  show ?thesis
  proof (cases tid)
    case ErrorTrigger
    then show ?thesis unfolding fst_eq by (auto simp: checkPatterns_other_times)
  next
    case FaultTrigger
    then show ?thesis unfolding fst_eq by (auto simp: checkPatterns_other_times)
  next
    case (PatternTrigger j)
    then show ?thesis unfolding fst_eq by (simp add: checkPatterns_time p2)
  qed
qed

lemma Sub_ge_iff:
  assumes "cd \<le> maxDuration" and "minDuration < cd \<or> u \<le> t"
  shows "cd \<le> Sub t u \<longleftrightarrow> cd \<le> t - u"
proof -
  have "minDuration < 0" "0 < maxDuration" by (simp_all add: minDuration_def maxDuration_def)
  then show ?thesis using assms by (auto simp: Sub_def)
qed

lemma checkPatterns_calls:
  "snd (checkPatterns cd ts i e now lt) =
     map (\<lambda>j. \<lparr>call_id = PatternTrigger j,
                call_type = ''pattern:'' @ String (pattern (ts ! (j - i))),
                call_command = command (ts ! (j - i))\<rparr>)
       (filter (\<lambda>j. MatchString (pattern (ts ! (j - i))) (Message e) \<and>
                     cd \<le> Sub now (patternTime (lastPatternTriggers lt) j))
          [i..<i + length ts])"
proof (induction ts arbitrary: i lt)
  case Nil
  then show ?case by simp
next
  case (Cons t ts)
  let ?lt' = "lt\<lparr>lastPatternTriggers := (lastPatternTriggers lt)(i \<mapsto> now)\<rparr>"
  let ?call = "\<lambda>us k j. \<lparr>call_id = PatternTrigger j,
                call_type = ''pattern:'' @ String (pattern (us ! (j - k))),
                call_command = command (us ! (j - k))\<rparr>"
  let ?ok = "\<lambda>us k l j. MatchString (pattern (us ! (j - k))) (Message e) \<and>
                     cd \<le> Sub now (patternTime (lastPatternTriggers l) j)"
  have upt: "[i..<i + length (t # ts)] = i # [Suc i..<Suc i + length ts]"
    using upt_rec[of i "Suc (i + length ts)"] by (simp del: upt_Suc)
  have mem: "Suc i \<le> j" if "j \<in> set [Suc i..<Suc i + length ts]" for j
    using that by (simp only: set_upt atLeastLessThan_iff)
  have idx: "(t # ts) ! (j - i) = ts ! (j - Suc i)" if "j \<in> set [Suc i..<Suc i + length ts]" for j
    using mem[OF that] by (simp add: Suc_diff_le)
  have keep: "patternTime (lastPatternTriggers ?lt') j = patternTime (lastPatternTriggers lt) j"
    if "j \<in> set [Suc i..<Suc i + length ts]" for j
    using mem[OF that] by (simp add: patternTime_def)
  have tail: "map (?call ts (Suc i)) (filter (?ok ts (Suc i) l) [Suc i..<Suc i + length ts]) =
              map (?call (t # ts) i) (filter (?ok (t # ts) i lt) [Suc i..<Suc i + length ts])"
    if "\<And>j. j \<in> set [Suc i..<Suc i + length ts] \<Longrightarrow>
          patternTime (lastPatternTriggers l) j = patternTime (lastPatternTriggers lt) j" for l
  proof -
    have f: "filter (?ok ts (Suc i) l) [Suc i..<Suc i + length ts] =
             filter (?ok (t # ts) i lt) [Suc i..<Suc i + length ts]"
      by (rule filter_cong[OF refl]) (simp only: idx that)
    show ?thesis unfolding f
      by (rule map_cong[OF refl]) (simp only: idx set_filter mem_Collect_eq)
  qed
  show ?case
  proof (cases "MatchString (pattern t) (Message e) \<and> cd \<le> Sub now (patternTime (lastPatternTriggers lt) i)")
    case True
    have "snd (checkPatterns cd (t # ts) i e now lt) =
          \<lparr>call_id = PatternTrigger i, call_type = ''pattern:'' @ String (pattern t),
            call_command = command t\<rparr> # snd (checkPatterns cd ts (Suc i) e now ?lt')"
      using True by (simp add: split_beta Let_def)
    also have "snd (checkPatterns cd ts (Suc i) e now ?lt') =
        map (?call (t # ts) i) (filter (?ok (t # ts) i lt) [Suc i..<Suc i + length ts])"
      unfolding Cons.IH by (rule tail) (rule keep)
    finally show ?thesis unfolding upt using True by simp
  next
    case False
    have "snd (checkPatterns cd (t # ts) i e now lt) = snd (checkPatterns cd ts (Suc i) e now lt)"
      using False by (auto simp: split_beta Let_def)
    also have "\<dots> = map (?call (t # ts) i) (filter (?ok (t # ts) i lt) [Suc i..<Suc i + length ts])"
      unfolding Cons.IH by (rule tail) simp
    finally show ?thesis unfolding upt using False by auto
  qed
qed

text \<open>The calls of one entry: one for every trigger that fires, in the order of the loop.\<close>

lemma checkTriggers_calls:
  "snd (checkTriggers c cd ts e now lt) =
     map (\<lambda>tid. \<lparr>call_id = tid, call_type = triggerTypeOf ts tid, call_command = triggerCommandOf c ts tid\<rparr>)
       (filter (\<lambda>tid. matchesTrigger c ts tid e \<and> cd \<le> Sub now (lastFire lt tid)) (allTriggers ts))"
proof -
  let ?fireE = "OnError c \<noteq> [] \<and> Level e = LogLevelError \<and> Sub now (lastErrorTrigger lt) \<ge> cd"
  let ?lt1 = "if ?fireE then lt\<lparr>lastErrorTrigger := now\<rparr> else lt"
  let ?fireF = "OnFault c \<noteq> [] \<and> Level e = LogLevelFault \<and> Sub now (lastFaultTrigger lt) \<ge> cd"
  let ?lt2 = "if ?fireF then ?lt1\<lparr>lastFaultTrigger := now\<rparr> else ?lt1"
  let ?call = "\<lambda>tid. \<lparr>call_id = tid, call_type = triggerTypeOf ts tid, call_command = triggerCommandOf c ts tid\<rparr>"
  let ?ok = "\<lambda>tid. matchesTrigger c ts tid e \<and> cd \<le> Sub now (lastFire lt tid)"
  have p2: "lastPatternTriggers ?lt2 = lastPatternTriggers lt" by simp
  have calls: "snd (checkTriggers c cd ts e now lt) =
      (if ?fireE then [?call ErrorTrigger] else []) @ (if ?fireF then [?call FaultTrigger] else []) @
      snd (checkPatterns cd ts 0 e now ?lt2)"
    by (simp add: checkTriggers_def split_beta Let_def)
  have "snd (checkPatterns cd ts 0 e now ?lt2) =
      map (\<lambda>j. ?call (PatternTrigger j))
        (filter (\<lambda>j. ?ok (PatternTrigger j)) [0..<length ts])"
    unfolding checkPatterns_calls p2
    by (rule arg_cong2[where f=map]) (auto intro!: filter_cong)
  also have "\<dots> = map ?call (filter ?ok (map PatternTrigger [0..<length ts]))"
    by (simp add: filter_map comp_def)
  finally have pat: "snd (checkPatterns cd ts 0 e now ?lt2) =
      map ?call (filter ?ok (map PatternTrigger [0..<length ts]))" .
  show ?thesis unfolding calls pat by (simp add: allTriggers_def)
qed

lemma foldl_startCall_running:
  "running (foldl (startCall g e) s calls) =
     running s @ map (\<lambda>call. \<lparr>run_command = call_command call, run_trigger = call_type call,
                               run_entry = e\<rparr>) calls"
  by (induction calls arbitrary: s) (simp_all add: startCall_def split_beta runTrigger_def)

lemma foldl_startCall_wrote:
  "wrote (foldl (startCall g e) s calls) =
     wrote s @ concat (map (\<lambda>call. fst (runTrigger g (call_type call) (call_command call) e)) calls)"
  by (induction calls arbitrary: s) (simp_all add: startCall_def split_beta)

lemma foldl_startCall_times:
  "times (foldl (startCall g e) s calls) = times s"
  by (induction calls arbitrary: s) (simp_all add: startCall_def split_beta)

text \<open>One entry, written without error: the loop goes on, in this state.\<close>

lemma watchStep_entry:
  "\<exists>s'. watchStep c g cd ts s (LogArrives e None now) = Inr s' \<and>
        times s' = fst (checkTriggers c cd ts e now (times s)) \<and>
        running s' = running s @
          map (\<lambda>call. \<lparr>run_command = call_command call, run_trigger = call_type call, run_entry = e\<rparr>)
            (snd (checkTriggers c cd ts e now (times s))) \<and>
        wrote s' = wrote s @ WriteEntry e #
          concat (map (\<lambda>call. fst (runTrigger g (call_type call) (call_command call) e))
            (snd (checkTriggers c cd ts e now (times s))))"
  by (simp add: split_beta foldl_startCall_running foldl_startCall_wrote)

lemma fired_by_Sub:
  assumes "cd \<le> maxDuration" and "minDuration < cd"
  shows "filter (\<lambda>tid. matchesTrigger c ts tid e \<and> cd \<le> Sub now (lastFire lt tid)) (allTriggers ts) =
         firedTriggers c cd ts lt e now"
  unfolding firedTriggers_def
  by (rule filter_cong[OF refl]) (simp add: Sub_ge_iff[OF assms(1) disjI1[OF assms(2)]])

text \<open>
  Over a sequence of entries that all meet the condition of one trigger, the entries on
  which the loop calls \<open>runTrigger\<close> for it are the ones the rule of the spec gives.
\<close>

lemma checkEntries_firesSpec:
  assumes "\<forall>p \<in> set entries. matchesTrigger c triggers tid (fst p)"
    and "minDuration < cooldown" and "cooldown \<le> maxDuration"
  shows "map (\<lambda>calls. tid \<in> call_id ` set calls) (fst (checkEntries c cooldown triggers lt entries)) =
           firesSpec cooldown (lastFire lt tid) (map snd entries)"
  using assms(1)
proof (induction entries arbitrary: lt)
  case Nil
  then show ?case by simp
next
  case (Cons p entries)
  obtain entry now where p: "p = (entry, now)" by (cases p)
  let ?r = "checkTriggers c cooldown triggers entry now lt"
  have m: "matchesTrigger c triggers tid entry" using Cons.prems p by simp
  have sub: "cooldown \<le> Sub now (lastFire lt tid) \<longleftrightarrow> cooldown \<le> now - lastFire lt tid"
    using assms(2,3) by (intro Sub_ge_iff) simp_all
  have fired: "tid \<in> call_id ` set (snd ?r) \<longleftrightarrow> cooldown \<le> now - lastFire lt tid"
    using m sub by (simp add: checkTriggers_ids)
  have last': "lastFire (fst ?r) tid = (if cooldown \<le> now - lastFire lt tid then now else lastFire lt tid)"
    using m sub by (simp add: checkTriggers_lastFire)
  have IH: "map (\<lambda>calls. tid \<in> call_id ` set calls) (fst (checkEntries c cooldown triggers (fst ?r) entries)) =
           firesSpec cooldown (lastFire (fst ?r) tid) (map snd entries)"
    by (rule Cons.IH) (use Cons.prems in simp)
  have unfold: "fst (checkEntries c cooldown triggers lt (p # entries)) =
      snd ?r # fst (checkEntries c cooldown triggers (fst ?r) entries)"
    by (simp add: p split_beta)
  show ?case
    unfolding unfold using fired last' IH by (simp add: p)
qed



section \<open>The watch command: starting the commands\<close>

text \<open>
  An error entry, with an error command and a cooldown of zero, is one call of
  \<open>runTrigger\<close>, when the clock has not gone backwards.
\<close>

lemma error_entry_calls:
  assumes "OnError c \<noteq> []" "OnFault c = []" "Level e = LogLevelError"
    and "lastErrorTrigger lt \<le> now" "cd \<le> 0"
  shows "checkTriggers c cd [] e now lt =
     (lt\<lparr>lastErrorTrigger := now\<rparr>, [\<lparr>call_id = ErrorTrigger, call_type = ''error'', call_command = OnError c\<rparr>])"
proof -
  have "0 < maxDuration" by (simp add: maxDuration_def)
  then have "cd \<le> Sub now (lastErrorTrigger lt)" using assms(4,5) by (auto simp: Sub_def)
  then show ?thesis using assms(1-3) by (simp add: checkTriggers_def)
qed

text \<open>
  With an error command, a cooldown of zero and \<open>n\<close> error entries (at one instant,
  for simplicity), \<open>n\<close> commands are started, all of them running until they return.
\<close>

lemma watchSteps_error_entries:
  assumes "OnError c \<noteq> []" "OnFault c = []" "Level e = LogLevelError" "cd \<le> 0"
    and "lastErrorTrigger (times s) \<le> now"
  shows "\<exists>s'. watchSteps c g cd [] s (replicate n (LogArrives e None now)) = Inr s' \<and>
          running s' = running s @
            replicate n \<lparr>run_command = OnError c, run_trigger = ''error'', run_entry = e\<rparr> \<and>
          wrote s' = wrote s @
            concat (replicate n (WriteEntry e # fst (runTrigger g ''error'' (OnError c) e)))"
  using assms(5)
proof (induction n arbitrary: s)
  case 0
  then show ?case by simp
next
  case (Suc n)
  let ?r = "\<lparr>run_command = OnError c, run_trigger = ''error'', run_entry = e\<rparr>"
  let ?w = "fst (runTrigger g ''error'' (OnError c) e)"
  let ?s1 = "s\<lparr>running := running s @ [?r], wrote := wrote s @ WriteEntry e # ?w,
               times := (times s)\<lparr>lastErrorTrigger := now\<rparr>\<rparr>"
  have step: "watchStep c g cd [] s (LogArrives e None now) = Inr ?s1"
    using error_entry_calls[OF assms(1-3) Suc.prems assms(4)]
    by (simp add: startCall_def runTrigger_def)
  have "lastErrorTrigger (times ?s1) \<le> now" by simp
  from Suc.IH[OF this] obtain s' where
    s': "watchSteps c g cd [] ?s1 (replicate n (LogArrives e None now)) = Inr s'"
    "running s' = running ?s1 @ replicate n ?r"
    "wrote s' = wrote ?s1 @ concat (replicate n (WriteEntry e # ?w))"
    by (elim exE conjE) (rule that)
  have "watchSteps c g cd [] s (replicate (Suc n) (LogArrives e None now)) = Inr s'"
    using step s'(1) by simp
  moreover have "running s' = running s @ replicate (Suc n) ?r"
    using s'(2) by (simp add: replicate_append_same)
  moreover have "wrote s' = wrote s @ concat (replicate (Suc n) (WriteEntry e # ?w))"
    using s'(3) by simp
  ultimately show ?case by blast
qed

text \<open>
  C2, amended. The loop has no bound on the trigger commands that run at once, and no
  saturation event. For every state of the loop, whatever commands are running, and
  every entry: every trigger that fires (its condition met, its cooldown passed) starts
  its command, so the commands running grow by the number of triggers that fire; what
  is written is the entry and, for each of these triggers, the notification of
  \<open>runTrigger\<close> (the \<open>trigger\<close> line with the trigger, the command and the message in
  the ndjson format), with no \<open>skipped\<close> and no \<open>reason\<close>; and the loop goes on without
  waiting for a command.
\<close>

theorem watch_starts_every_trigger:
  assumes "cooldown \<le> maxDuration" and "minDuration < cooldown"
  shows "\<exists>s'. watchStep c g cooldown triggers s (LogArrives entry None now) = Inr s' \<and>
           running s' = running s @
             map (\<lambda>tid. \<lparr>run_command = triggerCommandOf c triggers tid,
                          run_trigger = triggerTypeOf triggers tid, run_entry = entry\<rparr>)
               (firedTriggers c cooldown triggers (times s) entry now) \<and>
           length (running s') =
             length (running s) + length (firedTriggers c cooldown triggers (times s) entry now) \<and>
           wrote s' = wrote s @ WriteEntry entry #
             concat (map (\<lambda>tid.
                 if Format g = ''ndjson'' then
                   [ToStdout (''{\"type\":\"trigger\",\"trigger\":\"'' @ triggerTypeOf triggers tid @
                              ''\",\"command\":\"'' @ triggerCommandOf c triggers tid @
                              ''\",\"message\":\"'' @ escapeJSON (Message entry) @ ''\"}'' @ newline)]
                 else if \<not> Quiet g then
                   [ToStderr (''[TRIGGER:'' @ triggerTypeOf triggers tid @ ''] Running: '' @
                              triggerCommandOf c triggers tid @ newline)]
                 else [])
               (firedTriggers c cooldown triggers (times s) entry now))"
proof -
  from watchStep_entry[of c g cooldown triggers s entry now]
  obtain s' where s': "watchStep c g cooldown triggers s (LogArrives entry None now) = Inr s'"
    "running s' = running s @
          map (\<lambda>call. \<lparr>run_command = call_command call, run_trigger = call_type call, run_entry = entry\<rparr>)
            (snd (checkTriggers c cooldown triggers entry now (times s)))"
    "wrote s' = wrote s @ WriteEntry entry #
          concat (map (\<lambda>call. fst (runTrigger g (call_type call) (call_command call) entry))
            (snd (checkTriggers c cooldown triggers entry now (times s))))"
    by (elim exE conjE) (rule that)
  let ?fired = "firedTriggers c cooldown triggers (times s) entry now"
  have runs: "running s' = running s @
      map (\<lambda>tid. \<lparr>run_command = triggerCommandOf c triggers tid,
                   run_trigger = triggerTypeOf triggers tid, run_entry = entry\<rparr>) ?fired"
    unfolding s'(2) checkTriggers_calls fired_by_Sub[OF assms] by (simp add: comp_def)
  have len: "length (running s') = length (running s) + length ?fired"
    unfolding runs by simp
  have notice: "fst (runTrigger g ty cmd entry) =
      (if Format g = ''ndjson'' then
         [ToStdout (''{\"type\":\"trigger\",\"trigger\":\"'' @ ty @
                    ''\",\"command\":\"'' @ cmd @
                    ''\",\"message\":\"'' @ escapeJSON (Message entry) @ ''\"}'' @ newline)]
       else if \<not> Quiet g then
         [ToStderr (''[TRIGGER:'' @ ty @ ''] Running: '' @ cmd @ newline)]
       else [])" for ty cmd
    by (simp add: runTrigger_def triggerLine_def)
  have written: "wrote s' = wrote s @ WriteEntry entry #
      concat (map (\<lambda>tid.
          if Format g = ''ndjson'' then
            [ToStdout (''{\"type\":\"trigger\",\"trigger\":\"'' @ triggerTypeOf triggers tid @
                       ''\",\"command\":\"'' @ triggerCommandOf c triggers tid @
                       ''\",\"message\":\"'' @ escapeJSON (Message entry) @ ''\"}'' @ newline)]
          else if \<not> Quiet g then
            [ToStderr (''[TRIGGER:'' @ triggerTypeOf triggers tid @ ''] Running: '' @
                       triggerCommandOf c triggers tid @ newline)]
          else []) ?fired)"
    unfolding s'(3) checkTriggers_calls fired_by_Sub[OF assms]
    by (simp add: comp_def notice cong del: if_weak_cong)
  from s'(1) runs len written show ?thesis by blast
qed

theorem watch_starts_every_trigger_witness:
  "(case watchStep notifyOnError ndjsonGlobals 0 [] oneRunning (LogArrives errorEntry None 20) of
      Inl err \<Rightarrow> False
    | Inr s' \<Rightarrow>
        running s' =
          [\<lparr>run_command = ''notify.sh'', run_trigger = ''error'', run_entry = errorEntry\<rparr>,
           \<lparr>run_command = ''notify.sh'', run_trigger = ''error'', run_entry = errorEntry\<rparr>] \<and>
        wrote s' =
          [WriteEntry errorEntry,
           ToStdout (''{\"type\":\"trigger\",\"trigger\":\"error\",\"command\":\"notify.sh\",\"message\":\"Watch error\"}'' @ newline)])"
proof -
  have h1: "(0::int) \<le> maxDuration" by (simp add: maxDuration_def)
  have h2: "minDuration < (0::int)" by (simp add: minDuration_def)
  have lv: "Level errorEntry = LogLevelError" "LogLevelError \<noteq> LogLevelFault"
    "Message errorEntry = ''Watch error''"
    by (simp_all add: errorEntry_def faultEntry_def LogLevelError_def LogLevelFault_def)
  have esc: "escapeJSON ''Watch error'' = ''Watch error''" by (simp add: escapeJSON_def replaceByte_def)
  have fired: "firedTriggers notifyOnError 0 [] (times oneRunning) errorEntry 20 = [ErrorTrigger]"
    by (simp add: firedTriggers_def allTriggers_def notifyOnError_def oneRunning_def watchStart_def lv)
  from watch_starts_every_trigger[OF h1 h2, of notifyOnError ndjsonGlobals "[]" oneRunning errorEntry 20]
  obtain s' where s': "watchStep notifyOnError ndjsonGlobals 0 [] oneRunning (LogArrives errorEntry None 20) = Inr s'"
    and r: "running s' = running oneRunning @
             map (\<lambda>tid. \<lparr>run_command = triggerCommandOf notifyOnError [] tid,
                          run_trigger = triggerTypeOf [] tid, run_entry = errorEntry\<rparr>)
               (firedTriggers notifyOnError 0 [] (times oneRunning) errorEntry 20)"
    and w: "wrote s' = wrote oneRunning @ WriteEntry errorEntry #
             concat (map (\<lambda>tid.
                 if Format ndjsonGlobals = ''ndjson'' then
                   [ToStdout (''{\"type\":\"trigger\",\"trigger\":\"'' @ triggerTypeOf [] tid @
                              ''\",\"command\":\"'' @ triggerCommandOf notifyOnError [] tid @
                              ''\",\"message\":\"'' @ escapeJSON (Message errorEntry) @ ''\"}'' @ newline)]
                 else if \<not> Quiet ndjsonGlobals then
                   [ToStderr (''[TRIGGER:'' @ triggerTypeOf [] tid @ ''] Running: '' @
                              triggerCommandOf notifyOnError [] tid @ newline)]
                 else [])
               (firedTriggers notifyOnError 0 [] (times oneRunning) errorEntry 20))"
    by (elim exE conjE) (rule that)
  have r': "running s' =
          [\<lparr>run_command = ''notify.sh'', run_trigger = ''error'', run_entry = errorEntry\<rparr>,
           \<lparr>run_command = ''notify.sh'', run_trigger = ''error'', run_entry = errorEntry\<rparr>]"
    unfolding r fired by (simp add: oneRunning_def notifyOnError_def)
  have w': "wrote s' =
          [WriteEntry errorEntry,
           ToStdout (''{\"type\":\"trigger\",\"trigger\":\"error\",\"command\":\"notify.sh\",\"message\":\"Watch error\"}'' @ newline)]"
    unfolding w fired by (simp add: oneRunning_def watchStart_def notifyOnError_def ndjsonGlobals_def lv esc)
  show ?thesis unfolding s' using r' w' by simp
qed

text \<open>
  C2 as it is stated fails: with any bound of one command at a time, the second error
  entry, arriving while the command of the first still runs, starts a second command;
  what is written for it is the same notification, with no \<open>skipped\<close> and no
  \<open>reason\<close>.
\<close>

theorem watch_two_triggers_counterexample:
  "watchSteps notifyOnError ndjsonGlobals 0 [] watchStart
      [LogArrives errorEntry None 10, LogArrives errorEntry None 20] =
   Inr \<lparr>times = \<lparr>lastErrorTrigger = 20, lastFaultTrigger = 0, lastPatternTriggers = Map.empty\<rparr>,
        running = [\<lparr>run_command = ''notify.sh'', run_trigger = ''error'', run_entry = errorEntry\<rparr>,
                   \<lparr>run_command = ''notify.sh'', run_trigger = ''error'', run_entry = errorEntry\<rparr>],
        wrote = [WriteEntry errorEntry,
                 ToStdout (''{\"type\":\"trigger\",\"trigger\":\"error\",\"command\":\"notify.sh\",\"message\":\"Watch error\"}'' @ newline),
                 WriteEntry errorEntry,
                 ToStdout (''{\"type\":\"trigger\",\"trigger\":\"error\",\"command\":\"notify.sh\",\"message\":\"Watch error\"}'' @ newline)]\<rparr>"
proof -
  have sub: "Sub 10 0 = 10" "Sub 20 10 = 10" by (simp_all add: Sub_def maxDuration_def minDuration_def)
  have esc: "escapeJSON ''Watch error'' = ''Watch error''" by (simp add: escapeJSON_def replaceByte_def)
  have lv: "Level errorEntry = LogLevelError" "Message errorEntry = ''Watch error''"
    by (simp_all add: errorEntry_def faultEntry_def)
  have ne: "LogLevelError \<noteq> LogLevelFault" by (simp add: LogLevelError_def LogLevelFault_def)
  show ?thesis 
    by (simp add: watchStart_def notifyOnError_def ndjsonGlobals_def checkTriggers_def sub lv ne
        startCall_def runTrigger_def triggerLine_def esc)
qed

section \<open>Flag validation and the exit code\<close>

text \<open>
  C4, amended. Whenever the flags are an invalid combination (dry-run-json with tmux,
  dry-run-json without the ndjson format, or quiet with the text format) and the globals
  are present, \<open>validateFlags\<close> first reports the error with the code \<open>INVALID_FLAGS\<close>
  (by \<open>WriteError\<close> on stdout in the ndjson format, as the line
  \<open>Error [INVALID_FLAGS]: ...\<close> with its hint on stderr otherwise) and returns the error;
  \<open>main\<close>, given that error by the command, exits with the code 1.
\<close>

theorem validateFlags_exit_code:
  assumes "invalidCombination g dryRunJSON tmux"
  shows "\<exists>msg hint. validateFlags (Some g) dryRunJSON tmux =
           (if Format g = ''ndjson'' then [WriteError ''INVALID_FLAGS'' msg [hint]]
            else [ToStderr (''Error [INVALID_FLAGS]: '' @ msg), ToStderr ('' (hint: '' @ hint @ '')''),
                  ToStderr newline],
            Some msg) \<and>
         mainExitCode (snd (validateFlags (Some g) dryRunJSON tmux)) = 1"
  using assms
  by (auto simp: invalidCombination_def validateFlags_def outputErrorCommon_def mainExitCode_def)

theorem validateFlags_exit_code_witness:
  "validateFlags (Some quietTextGlobals) False False =
     ([ToStderr ''Error [INVALID_FLAGS]: --quiet is only supported with ndjson output'',
       ToStderr '' (hint: switch to --format ndjson or drop --quiet)'', ToStderr newline],
      Some ''--quiet is only supported with ndjson output'') \<and>
   mainExitCode (snd (validateFlags (Some quietTextGlobals) False False)) = 1"
proof -
  have h: "invalidCombination quietTextGlobals False False"
    by (simp add: invalidCombination_def quietTextGlobals_def)
  have v: "validateFlags (Some quietTextGlobals) False False =
     ([ToStderr ''Error [INVALID_FLAGS]: --quiet is only supported with ndjson output'',
       ToStderr '' (hint: switch to --format ndjson or drop --quiet)'', ToStderr newline],
      Some ''--quiet is only supported with ndjson output'')"
    by (simp add: validateFlags_def outputErrorCommon_def quietTextGlobals_def)
  show ?thesis using validateFlags_exit_code[OF h] v by simp
qed

text \<open>
  C4 as it is stated fails: for dry-run-json with tmux the error is reported and the exit
  code is 1, not 2; \<open>main\<close> has no other exit code for an error. And with nil globals the
  same combination returns the error without reporting it.
\<close>

theorem validateFlags_exit_code_counterexample:
  "invalidCombination ndjsonGlobals True True \<and>
   validateFlags (Some ndjsonGlobals) True True =
     ([WriteError ''INVALID_FLAGS'' ''--dry-run-json cannot be combined with --tmux''
         [''drop --tmux or remove --dry-run-json'']],
      Some ''--dry-run-json cannot be combined with --tmux'') \<and>
   mainExitCode (snd (validateFlags (Some ndjsonGlobals) True True)) = 1 \<and>
   mainExitCode (snd (validateFlags (Some ndjsonGlobals) True True)) \<noteq> 2 \<and>
   validateFlags None True True = ([], Some ''--dry-run-json cannot be combined with --tmux'')"
  by (simp add: invalidCombination_def validateFlags_def outputErrorCommon_def ndjsonGlobals_def
      mainExitCode_def)

section \<open>The resume state\<close>

lemma splitPath_nonempty [simp]: "splitPath s \<noteq> []"
  by (induction s) (auto split: list.splits)

lemma splitPath_name: "CHR ''/'' \<notin> set n \<Longrightarrow> splitPath n = [n]"
  by (induction n) auto

lemma splitPath_append: "splitPath (a @ CHR ''/'' # b) = splitPath a @ splitPath b"
proof (induction a)
  case Nil
  then show ?case by simp
next
  case (Cons c a)
  then show ?case by (cases "splitPath a") auto
qed

lemma joinPath_snoc: "xs \<noteq> [] \<Longrightarrow> joinPath (xs @ [e]) = joinPath xs @ ''/'' @ e"
  by (induction xs rule: joinPath.induct) auto

lemma Clean_append_name:
  assumes d: "cleanRooted d" and n: "plainName n"
  shows "Clean (d @ ''/'' @ n) = d @ ''/'' @ n" and "cleanRooted (d @ ''/'' @ n)"
proof -
  let ?kept = "foldl (cleanStep True) [] (splitPath d)"
  have root: "hd d = CHR ''/''" "d \<noteq> []" using d by (simp_all add: cleanRooted_def)
  have cd: "Clean d = ''/'' @ joinPath (rev ?kept)"
    using root by (simp add: Clean_def Let_def)
  have "Clean d = d" "d \<noteq> ''/''" using d by (simp_all add: cleanRooted_def)
  then have kept: "?kept \<noteq> []" and deq: "d = ''/'' @ joinPath (rev ?kept)"
    using cd by auto
  have sp: "splitPath (d @ CHR ''/'' # n) = splitPath d @ [n]"
    using n by (simp add: splitPath_append splitPath_name plainName_def)
  have st: "foldl (cleanStep True) [] (splitPath (d @ CHR ''/'' # n)) = n # ?kept"
    unfolding sp using n by (simp add: cleanStep_def plainName_def)
  have hdn: "hd (d @ ''/'' @ n) = CHR ''/''" using root by simp
  have "Clean (d @ ''/'' @ n) = ''/'' @ joinPath (rev ?kept @ [n])"
    using hdn root by (simp add: Clean_def Let_def st)
  also have "\<dots> = ''/'' @ joinPath (rev ?kept) @ ''/'' @ n"
    using kept by (simp add: joinPath_snoc)
  also have "\<dots> = d @ ''/'' @ n" using deq by simp
  finally show c: "Clean (d @ ''/'' @ n) = d @ ''/'' @ n" .
  have "d @ ''/'' @ n \<noteq> ''/''" using root by (cases d) auto
  then show "cleanRooted (d @ ''/'' @ n)" using c hdn root by (simp add: cleanRooted_def)
qed

lemma Join_home:
  assumes "cleanRooted h"
  shows "Join [h, ''.xcw'', ''resume''] = h @ ''/.xcw/resume''" and "cleanRooted (h @ ''/.xcw/resume'')"
proof -
  have n1: "plainName ''.xcw''" and n2: "plainName ''resume''" by (simp_all add: plainName_def)
  note a = Clean_append_name[OF assms n1]
  note b = Clean_append_name[OF a(2) n2]
  have "h \<noteq> []" using assms by (simp add: cleanRooted_def)
  then show "Join [h, ''.xcw'', ''resume''] = h @ ''/.xcw/resume''"
    using b(1) by (simp add: Join_def)
  show "cleanRooted (h @ ''/.xcw/resume'')" using b(2) by simp
qed

lemma Join_file:
  assumes "cleanRooted d" and "plainName n"
  shows "Join [d, n] = d @ ''/'' @ n"
proof -
  have "d \<noteq> []" using assms by (simp add: cleanRooted_def)
  then show ?thesis using Clean_append_name(1)[OF assms] by (simp add: Join_def)
qed

lemma Dir_file:
  assumes "cleanRooted d" and "plainName n"
  shows "Dir (d @ ''/'' @ n) = d"
proof -
  have "CHR ''/'' \<notin> set (rev n)" using assms(2) by (simp add: plainName_def)
  then have "dropWhile (\<lambda>c. c \<noteq> CHR ''/'') (rev n @ ''/'' @ rev d) = ''/'' @ rev d"
    by (simp add: dropWhile_append)
  then have "Dir (d @ ''/'' @ n) = Clean (d @ ''/'')" by (simp add: Dir_def)
  also have "\<dots> = d"
  proof -
    let ?kept = "foldl (cleanStep True) [] (splitPath d)"
    have root: "hd d = CHR ''/''" "d \<noteq> []" "Clean d = d" using assms(1) by (simp_all add: cleanRooted_def)
    have "splitPath (d @ ''/'') = splitPath d @ [[]]" using splitPath_append[of d "[]"] by simp
    then have "foldl (cleanStep True) [] (splitPath (d @ ''/'')) = ?kept" by (simp add: cleanStep_def)
    then have "Clean (d @ ''/'') = Clean d" using root by (simp add: Clean_def Let_def)
    then show ?thesis using root by simp
  qed
  finally show ?thesis .
qed

lemma leadingSpace_slash: "leadingSpace (CHR ''/'' # cs) = 0"
  by (simp add: leadingSpace_def spaceRunes_def HasPrefix_def)

lemma HasSuffix_last: "HasSuffix s p \<Longrightarrow> p \<noteq> [] \<Longrightarrow> last p = last s"
proof -
  assume a: "HasSuffix s p" "p \<noteq> []"
  then have "s = take (length s - length p) s @ p"
    by (metis HasSuffix_def append_take_drop_id)
  then show ?thesis using a(2) by (metis last_appendR)
qed

lemma trailingSpace_n: "trailingSpace (xs @ [CHR ''n'']) = 0"
proof -
  have "\<not> HasSuffix (xs @ [CHR ''n'']) w" if "w \<in> set spaceRunes" for w
  proof
    assume h: "HasSuffix (xs @ [CHR ''n'']) w"
    have "w \<noteq> []" using that by (auto simp: spaceRunes_def)
    from HasSuffix_last[OF h this] have "last w = CHR ''n''" by simp
    then show False using that by (auto simp: spaceRunes_def)
  qed
  then have "find (HasSuffix (xs @ [CHR ''n''])) spaceRunes = None"
    by (simp add: find_None_iff)
  then show ?thesis by (simp add: trailingSpace_def)
qed

lemma trimRight_none: "trailingSpace (rev (c # cs)) = 0 \<Longrightarrow> trimRight 0 (c # cs) = c # cs"
  by simp

lemma TrimSpace_path: "TrimSpace (CHR ''/'' # xs @ ''.json'') = CHR ''/'' # xs @ ''.json''"
proof -
  let ?q = "CHR ''/'' # xs @ ''.jso''"
  have l: "trimLeft 0 (CHR ''/'' # xs @ ''.json'') = CHR ''/'' # xs @ ''.json''"
    by (simp add: leadingSpace_slash)
  have eq: "rev (CHR ''/'' # xs @ ''.json'') = CHR ''n'' # rev ?q" by simp
  have "trailingSpace (rev (CHR ''n'' # rev ?q)) = 0"
    using trailingSpace_n[of ?q] by simp
  then have "trimRight 0 (CHR ''n'' # rev ?q) = CHR ''n'' # rev ?q" by (rule trimRight_none)
  then have r: "trimRight 0 (rev (CHR ''/'' # xs @ ''.json'')) = rev (CHR ''/'' # xs @ ''.json'')"
    unfolding eq .
  show ?thesis unfolding TrimSpace_def l r by simp
qed

lemma plainName_json: "a \<noteq> [] \<Longrightarrow> CHR ''/'' \<notin> set a \<Longrightarrow> plainName (a @ ''.json'')"
  by (cases a) (auto simp: plainName_def)

text \<open>
  Whatever fails, \<open>saveResumeState\<close> makes at most the two calls, in this order, and its
  only write is the \<open>WriteFile\<close> on the path itself.
\<close>

lemma saveResumeState_calls:
  "snd (saveResumeState failing marshal path st) = [] \<or>
   snd (saveResumeState failing marshal path st) = [MkdirAll (Dir (TrimSpace path)) perm0755] \<or>
   (\<exists>b. marshal (the st) = Some b \<and>
      snd (saveResumeState failing marshal path st) =
        [MkdirAll (Dir (TrimSpace path)) perm0755, WriteFile (TrimSpace path) (b @ newline) perm0644])"
  by (auto simp: saveResumeState_def Let_def split: option.splits)

text \<open>
  C5, amended. For a home directory that is a clean rooted path and a bundle identifier
  that, trimmed of white space, is not empty and has no \<open>/\<close>: the default path is
  \<open><home>/.xcw/resume/<bundle-id>.json\<close>, and \<open>defaultResumeStatePath\<close> creates its
  directory with mode 0755. When no call of the system fails, \<open>saveResumeState\<close> on that
  path makes two calls: \<open>MkdirAll\<close> of the parent directory with mode 0755, and one
  \<open>WriteFile\<close> with mode 0644 on the path itself. It writes no temporary file and renames
  nothing: the file is overwritten in place.
\<close>

theorem resume_state_saved_in_place:
  assumes home: "cleanRooted home"
    and app: "TrimSpace app_arg \<noteq> []" "CHR ''/'' \<notin> set (TrimSpace app_arg)"
    and path: "path = home @ ''/.xcw/resume/'' @ TrimSpace app_arg @ ''.json''"
    and ok: "\<forall>c. \<not> failing c" "marshal st = Some b"
  shows "defaultResumeStatePath failing (Some home) app_arg =
           (Inr path, [MkdirAll (home @ ''/.xcw/resume'') perm0755]) \<and>
         saveResumeState failing marshal path (Some st) =
           (None, [MkdirAll (home @ ''/.xcw/resume'') perm0755,
                   WriteFile path (b @ newline) perm0644]) \<and>
         perm0755 = 493 \<and> perm0644 = 420"
proof -
  let ?dir = "home @ ''/.xcw/resume''"
  let ?file = "TrimSpace app_arg @ ''.json''"
  have fname: "plainName ?file" using app by (rule plainName_json)
  note jh = Join_home[OF home]
  have jf: "Join [?dir, ?file] = ?dir @ ''/'' @ ?file" using jh(2) fname by (rule Join_file)
  have p: "path = ?dir @ ''/'' @ ?file" using path by simp
  have d1: "defaultResumeStatePath failing (Some home) app_arg = (Inr path, [MkdirAll ?dir perm0755])"
    using app(1) ok(1) by (simp add: defaultResumeStatePath_def Let_def jh(1) jf p)
  obtain hs where hs: "home = CHR ''/'' # hs" using home by (cases home) (auto simp: cleanRooted_def)
  have "path = CHR ''/'' # (hs @ ''/.xcw/resume/'' @ TrimSpace app_arg) @ ''.json''"
    using path hs by simp
  then have trim: "TrimSpace path = path" using TrimSpace_path by metis
  have ne: "path \<noteq> []" using path hs by simp
  have dir: "Dir path = ?dir" unfolding p using jh(2) fname by (rule Dir_file)
  have d2: "saveResumeState failing marshal path (Some st) =
      (None, [MkdirAll ?dir perm0755, WriteFile path (b @ newline) perm0644])"
    using ok ne by (simp add: saveResumeState_def Let_def trim dir)
  have "perm0755 = 493" "perm0644 = 420" by (simp_all add: perm0755_def perm0644_def)
  with d1 d2 show ?thesis by simp
qed

theorem resume_state_saved_in_place_witness:
  "defaultResumeStatePath (\<lambda>c. False) (Some homeDev) '' com.example.myapp '' =
     (Inr ''/Users/dev/.xcw/resume/com.example.myapp.json'',
      [MkdirAll ''/Users/dev/.xcw/resume'' 493]) \<and>
   saveResumeState (\<lambda>c. False) (\<lambda>st. Some ''{}'') ''/Users/dev/.xcw/resume/com.example.myapp.json''
       (Some resumeExample) =
     (None, [MkdirAll ''/Users/dev/.xcw/resume'' 493,
             WriteFile ''/Users/dev/.xcw/resume/com.example.myapp.json'' (''{}'' @ newline) 420])"
proof -
  have h1: "cleanRooted homeDev"
    by (simp add: cleanRooted_def homeDev_def Clean_def cleanStep_def)
  have t: "TrimSpace '' com.example.myapp '' = ''com.example.myapp''" by code_simp
  have h2: "TrimSpace '' com.example.myapp '' \<noteq> []" unfolding t by simp
  have h3: "CHR ''/'' \<notin> set (TrimSpace '' com.example.myapp '')" unfolding t by simp
  have h4: "''/Users/dev/.xcw/resume/com.example.myapp.json'' =
      homeDev @ ''/.xcw/resume/'' @ TrimSpace '' com.example.myapp '' @ ''.json''"
    unfolding t by (simp add: homeDev_def)
  have h5: "\<forall>c. \<not> (\<lambda>c. False) c" by simp
  have h6: "(\<lambda>st. Some ''{}'') resumeExample = Some ''{}''" by simp
  show ?thesis
    using resume_state_saved_in_place[OF h1 h2 h3 h4 h5 h6] by (simp add: homeDev_def)
qed

text \<open>
  C5 as it is stated fails: the calls of \<open>saveResumeState\<close> on the default path of
  \<open>com.example.myapp\<close> are the \<open>MkdirAll\<close> and a \<open>WriteFile\<close> whose target is the resume
  file itself, not a temporary file that a rename would then move over it. And for a
  bundle identifier with \<open>/\<close> the default path, cleaned by \<open>filepath.Join\<close>, need not
  be a file of the resume directory.
\<close>

theorem resume_state_not_atomic_counterexample:
  "saveResumeState (\<lambda>c. False) (\<lambda>st. Some ''{}'') ''/Users/dev/.xcw/resume/com.example.myapp.json''
       (Some resumeExample) =
     (None, [MkdirAll ''/Users/dev/.xcw/resume'' 493,
             WriteFile ''/Users/dev/.xcw/resume/com.example.myapp.json'' (''{}'' @ newline) 420]) \<and>
   defaultResumeStatePath (\<lambda>c. False) (Some homeDev) ''../../x'' =
     (Inr ''/Users/dev/x.json'', [MkdirAll ''/Users/dev/.xcw/resume'' 493])"
proof -
  have t: "TrimSpace ''/Users/dev/.xcw/resume/com.example.myapp.json'' =
      ''/Users/dev/.xcw/resume/com.example.myapp.json''" by code_simp
  have d: "Dir ''/Users/dev/.xcw/resume/com.example.myapp.json'' = ''/Users/dev/.xcw/resume''"
    by code_simp
  have a: "TrimSpace ''../../x'' = ''../../x''" by code_simp
  have j1: "Join [''/Users/dev'', ''.xcw'', ''resume''] = ''/Users/dev/.xcw/resume''" by code_simp
  have j2: "Join [''/Users/dev/.xcw/resume'', ''../../x.json''] = ''/Users/dev/x.json''" by code_simp
  show ?thesis
    by (simp add: saveResumeState_def defaultResumeStatePath_def homeDev_def t d a j1 j2
        perm0755_def perm0644_def)
qed


end
